theory Spec2Isabelle
  imports Complex_Main "HOL-Library.Multiset" "HOL-Library.Sublist"
begin

section \<open>Strings and the library calls the parser makes\<close>

text \<open>
  A \<open>std::string\<close> is a list of bytes. \<open>s.find(p)\<close> returns the position of the first
  occurrence of \<open>p\<close> in \<open>s\<close>, or \<open>npos\<close>, which is \<open>None\<close> here. The source uses it in two
  ways: \<open>find(p) == 0\<close> (the line starts with \<open>p\<close>) and \<open>find(p) != npos\<close> (the line
  contains \<open>p\<close>).
\<close>

fun str_find :: "string \<Rightarrow> string \<Rightarrow> nat option" where
  "str_find [] p = (if p = [] then Some 0 else None)"
| "str_find (c # cs) p =
     (if take (length p) (c # cs) = p then Some 0 else map_option Suc (str_find cs p))"

text \<open>
  The character classes of the two regular expressions, in the classic locale:
  \<open>\s\<close> is space, tab, line feed, vertical tab, form feed and carriage return, \<open>\S\<close> its
  complement, \<open>\d\<close> the ten decimal digits.
\<close>

definition isspace :: "char \<Rightarrow> bool" where
  "isspace c \<longleftrightarrow> c \<in> set [CHR '' '', CHR 0x09, CHR 0x0A, CHR 0x0B, CHR 0x0C, CHR 0x0D]"

definition isdigit :: "char \<Rightarrow> bool" where
  "isdigit c \<longleftrightarrow> c \<in> set ''0123456789''"

datatype char_class = Lit char | Space | NonSpace | Digit | DigitOrDot

fun accepts :: "char_class \<Rightarrow> char \<Rightarrow> bool" where
  "accepts (Lit l) c = (c = l)"
| "accepts Space c = isspace c"
| "accepts NonSpace c = (\<not> isspace c)"
| "accepts Digit c = isdigit c"
| "accepts DigitOrDot c = (isdigit c \<or> c = CHR ''.'')"

text \<open>
  Both patterns of the source are sequences of single characters and of greedy
  repetitions \<open>C+\<close> of a character class. \<open>rmatch\<close> is the backtracking matcher of
  ECMAScript regular expressions on such sequences, anchored at the start of the string:
  a repetition consumes one character and then first tries to consume more, and only when
  that fails lets the rest of the pattern continue. The result lists the text each item
  consumed, so that the capture groups can be read off.
\<close>

datatype item = One char_class | Plus char_class

fun rmatch :: "item list \<Rightarrow> string \<Rightarrow> string list option" where
  "rmatch [] s = Some []"
| "rmatch (One a # r) [] = None"
| "rmatch (One a # r) (c # cs) =
     (if accepts a c then map_option ((#) [c]) (rmatch r cs) else None)"
| "rmatch (Plus a # r) [] = None"
| "rmatch (Plus a # r) (c # cs) =
     (if accepts a c then
        (case rmatch (Plus a # r) cs of
           Some (m # ms) \<Rightarrow> Some ((c # m) # ms)
         | _ \<Rightarrow> map_option ((#) [c]) (rmatch r cs))
      else None)"

text \<open>\<open>std::regex_search\<close>: the match that starts leftmost in the line.\<close>

fun regex_search :: "item list \<Rightarrow> string \<Rightarrow> string list option" where
  "regex_search p [] = rmatch p []"
| "regex_search p (c # cs) =
     (case rmatch p (c # cs) of Some ms \<Rightarrow> Some ms | None \<Rightarrow> regex_search p cs)"

text \<open>
  The exceptions the parser can meet: the \<open>std::runtime_error\<close> it throws itself, and the
  \<open>std::invalid_argument\<close> and \<open>std::out_of_range\<close> of \<open>std::stod\<close>, each with its message.
\<close>

datatype error = runtime_error string | invalid_argument string | out_of_range string

text \<open>
  A \<open>double\<close> is modelled by the real number it denotes. \<open>std::stod\<close> is only ever called
  on text matched by \<open>[\d\.]+\<close>: it converts the longest prefix of the form digits,
  optional dot, digits. It throws \<open>std::invalid_argument\<close> when that prefix has no digit,
  and \<open>std::out_of_range\<close> when \<open>strtod\<close> reports a range error. A decimal overflows when
  it rounds, to nearest, beyond the largest finite \<open>double\<close>, that is, when it is at
  least \<open>2^1024 - 2^970\<close>; it underflows when it is not zero and lies below the smallest
  normal \<open>double\<close>, \<open>2^-1022\<close> (the C library decides whether an underflow is reported;
  the model takes it as reported, as the GNU C library does for such a decimal that is not
  itself a \<open>double\<close>). Otherwise the value is the exact decimal; its rounding to the
  nearest \<open>double\<close> is outside the model.
\<close>

definition out_of_double_range :: "real \<Rightarrow> bool" where
  "out_of_double_range v \<longleftrightarrow> v \<ge> 2 ^ 1024 - 2 ^ 970 \<or> (0 < v \<and> v < 1 / 2 ^ 1022)"

definition digits_val :: "string \<Rightarrow> nat" where
  "digits_val ds = foldl (\<lambda>n c. 10 * n + (of_char c - 48)) 0 ds"

definition stod :: "string \<Rightarrow> error + real" where
  "stod s =
     (let ip = takeWhile isdigit s;
          rest = dropWhile isdigit s;
          fp = (case rest of [] \<Rightarrow> [] | c # r \<Rightarrow> if c = CHR ''.'' then takeWhile isdigit r else [])
      in if ip = [] \<and> fp = [] then Inl (invalid_argument ''stod'')
         else (let v = real (digits_val ip) + real (digits_val fp) / 10 ^ length fp
               in if out_of_double_range v then Inl (out_of_range ''stod'') else Inr v))"

section \<open>The data model (parser.h)\<close>

text \<open>
  Nodes are shared between edges through \<open>std::shared_ptr\<close>, and the node cache exists to
  hand out the same instance again, so nodes live in an explicit heap: a node pointer is
  an address, \<open>nullptr\<close> is \<open>None\<close>. Edges are held by value, in path order; a null
  edge pointer in a path is \<open>None\<close>.
\<close>

type_synonym node_ref = nat

record TimingNode =
  name :: string
  type :: string
  capacitance :: real
  slew :: real

record TimingEdge =
  "from" :: "node_ref option"
  "to" :: "node_ref option"
  delay :: real
  netDelay :: real
  cellDelay :: real

record TimingPath =
  path_id :: string
  startpoint :: string
  endpoint :: string
  totalDelay :: real
  edges :: "TimingEdge option list"

text \<open>\<open>TimingPath::getWorstStage\<close>: the range-for loop, then the function.\<close>

fun getWorstStage_loop ::
  "TimingEdge option list \<Rightarrow> real \<Rightarrow> TimingEdge option \<Rightarrow> real \<times> TimingEdge option" where
  "getWorstStage_loop [] maxDelay worstEdge = (maxDelay, worstEdge)"
| "getWorstStage_loop (None # es) maxDelay worstEdge = getWorstStage_loop es maxDelay worstEdge"
| "getWorstStage_loop (Some e # es) maxDelay worstEdge =
     (if delay e > maxDelay then getWorstStage_loop es (delay e) (Some e)
      else getWorstStage_loop es maxDelay worstEdge)"

definition getWorstStage :: "TimingPath \<Rightarrow> real \<times> TimingEdge option" where
  "getWorstStage p =
     (if edges p = [] then (0, None) else getWorstStage_loop (edges p) 0 None)"

section \<open>The parser (parser.cpp)\<close>

text \<open>
  The state of a parse session: the parser's \<open>nodeCache\<close>, and the heap of the nodes
  allocated so far (\<open>next_ref\<close> is the first free address).
\<close>

record parser_state =
  nodeCache :: "string \<Rightarrow> node_ref option"
  node_heap :: "node_ref \<Rightarrow> TimingNode"
  next_ref :: node_ref

text \<open>\<open>std::make_shared<TimingNode>(name, type)\<close>: a new node at a fresh address.\<close>

definition make_shared_node :: "parser_state \<Rightarrow> string \<Rightarrow> string \<Rightarrow> node_ref \<times> parser_state" where
  "make_shared_node s nm ty =
     (next_ref s,
      s\<lparr>node_heap := (node_heap s)
           (next_ref s := \<lparr>name = nm, type = ty, capacitance = 0, slew = 0\<rparr>),
        next_ref := Suc (next_ref s)\<rparr>)"

text \<open>The two if-chains of \<open>parsePathStage\<close> that guess a node type from its name.\<close>

definition inferFromType :: "string \<Rightarrow> string" where
  "inferFromType fromName =
     (if str_find fromName ''NET'' \<noteq> None then ''net''
      else if str_find fromName ''FF'' \<noteq> None \<or> str_find fromName ''FLOP'' \<noteq> None then ''flop''
      else if str_find fromName ''PI'' \<noteq> None then ''primary_input''
      else ''unknown'')"

definition inferToType :: "string \<Rightarrow> string" where
  "inferToType toName =
     (if str_find toName ''NET'' \<noteq> None then ''net''
      else if str_find toName ''INV'' \<noteq> None then ''inverter''
      else if str_find toName ''BUF'' \<noteq> None then ''buffer''
      else if str_find toName ''NAND'' \<noteq> None then ''nand''
      else if str_find toName ''NOR'' \<noteq> None then ''nor''
      else if str_find toName ''FF'' \<noteq> None \<or> str_find toName ''FLOP'' \<noteq> None then ''flop''
      else if str_find toName ''PO'' \<noteq> None then ''primary_output''
      else ''unknown'')"

text \<open>
  "Get or create nodes": the cache lookup of \<open>parsePathStage\<close> for the source node and
  for the destination node. A hit returns the cached pointer; a miss allocates the node
  with the guessed type and stores the pointer under the name.
\<close>

definition resolveFrom :: "parser_state \<Rightarrow> string \<Rightarrow> node_ref \<times> parser_state" where
  "resolveFrom s fromName =
     (case nodeCache s fromName of
        Some r \<Rightarrow> (r, s)
      | None \<Rightarrow>
          (let (r, s') = make_shared_node s fromName (inferFromType fromName)
           in (r, s'\<lparr>nodeCache := (nodeCache s')(fromName \<mapsto> r)\<rparr>)))"

definition resolveTo :: "parser_state \<Rightarrow> string \<Rightarrow> node_ref \<times> parser_state" where
  "resolveTo s toName =
     (case nodeCache s toName of
        Some r \<Rightarrow> (r, s)
      | None \<Rightarrow>
          (let (r, s') = make_shared_node s toName (inferToType toName)
           in (r, s'\<lparr>nodeCache := (nodeCache s')(toName \<mapsto> r)\<rparr>)))"

text \<open>
  The stage pattern \<open>(\S+\.\d+)\s+(\S+)\s+(\S+)\s+([\d\.]+)\<close>. Group 1 is items 0 to 2,
  groups 2, 3 and 4 are items 4, 6 and 8.
\<close>

definition stagePattern :: "item list" where
  "stagePattern =
     [Plus NonSpace, One (Lit CHR ''.''), Plus Digit, Plus Space, Plus NonSpace,
      Plus Space, Plus NonSpace, Plus Space, Plus DigitOrDot]"

text \<open>
  \<open>parsePathStage\<close> returns the new state and either the exception thrown, or the edge
  pointer, which is null (\<open>None\<close>) when the line does not match the pattern.
\<close>

definition parsePathStage ::
  "parser_state \<Rightarrow> string \<Rightarrow> parser_state \<times> (error + TimingEdge option)" where
  "parsePathStage s line =
     (case regex_search stagePattern line of
        Some [m0, m1, m2, w1, toName, w2, fromName, w3, m4] \<Rightarrow>
          (case stod m4 of
             Inl e \<Rightarrow> (s, Inl e)
           | Inr d \<Rightarrow>
               (let (fromNode, s1) = resolveFrom s fromName;
                    (toNode, s2) = resolveTo s1 toName;
                    edge = \<lparr>from = Some fromNode, to = Some toNode, delay = d,
                            netDelay = 0, cellDelay = 0\<rparr>
                in (s2, Inr (Some (if type (node_heap s2 fromNode) = ''net''
                                   then edge\<lparr>netDelay := d\<rparr>
                                   else edge\<lparr>cellDelay := d\<rparr>)))))
      | _ \<Rightarrow> (s, Inr None))"

text \<open>
  The header pattern \<open>Path\s+(\S+)\s+(\S+)\s+(\S+)\s+([\d\.]+)\<close>: groups 1 to 4 are items
  5, 7, 9 and 11. The function returns \<open>{id, startpoint, endpoint, delay}\<close>, where the
  endpoint is group 2 and the startpoint group 3.
\<close>

definition headerPattern :: "item list" where
  "headerPattern =
     [One (Lit CHR ''P''), One (Lit CHR ''a''), One (Lit CHR ''t''), One (Lit CHR ''h''),
      Plus Space, Plus NonSpace, Plus Space, Plus NonSpace, Plus Space, Plus NonSpace,
      Plus Space, Plus DigitOrDot]"

definition parsePathHeader :: "string \<Rightarrow> error + (string \<times> string \<times> string \<times> real)" where
  "parsePathHeader line =
     (case regex_search headerPattern line of
        Some [p0, p1, p2, p3, w0, m1, w1, m2, w2, m3, w3, m4] \<Rightarrow>
          (case stod m4 of
             Inl e \<Rightarrow> Inl e
           | Inr d \<Rightarrow> Inr (m1, m3, m2, d))
      | _ \<Rightarrow> Inl (runtime_error (''Invalid path header format: '' @ line)))"

text \<open>
  The stage loop of \<open>parsePath\<close>. An exception of \<open>parsePathStage\<close> is caught inside the
  loop and a null edge is not appended; in both cases the scan goes on with the next line.
\<close>

function parsePath_loop ::
  "string list \<Rightarrow> parser_state \<Rightarrow> TimingPath \<Rightarrow> nat \<Rightarrow> parser_state \<times> TimingPath \<times> nat" where
  "parsePath_loop lns s p lineIndex =
     (if lineIndex < length lns then
        (let line = lns ! lineIndex in
         if line = [] \<or> str_find line ''Path '' = Some 0 \<or> str_find line ''End of'' \<noteq> None
         then (s, p, lineIndex)
         else if str_find line (path_id p @ ''.'') \<noteq> None then
           (case parsePathStage s line of
              (s', Inr (Some edge)) \<Rightarrow>
                parsePath_loop lns s' (p\<lparr>edges := edges p @ [Some edge]\<rparr>) (lineIndex + 1)
            | (s', Inr None) \<Rightarrow> parsePath_loop lns s' p (lineIndex + 1)
            | (s', Inl e) \<Rightarrow> parsePath_loop lns s' p (lineIndex + 1))
         else parsePath_loop lns s p (lineIndex + 1))
      else (s, p, lineIndex))"
  by pat_completeness auto
termination
  by (relation "measure (\<lambda>(lns, s, p, lineIndex). length lns - lineIndex)") auto

declare parsePath_loop.simps [simp del]

text \<open>
  \<open>parsePath\<close>: the header's exception propagates to the caller. The caller guarantees
  \<open>startLine < lines.size()\<close>.
\<close>

definition parsePath ::
  "parser_state \<Rightarrow> string list \<Rightarrow> nat \<Rightarrow> error + (parser_state \<times> TimingPath \<times> nat)" where
  "parsePath s lns startLine =
     (case parsePathHeader (lns ! startLine) of
        Inl e \<Rightarrow> Inl e
      | Inr (i, sp, ep, d) \<Rightarrow>
          Inr (parsePath_loop lns s
                 \<lparr>path_id = i, startpoint = sp, endpoint = ep, totalDelay = d, edges = []\<rparr>
                 (startLine + 1)))"

text \<open>
  For the proofs, the loop is read as one step repeated: a line ends the block
  (\<open>block_end\<close>), or it is handed to \<open>stage_step\<close> and the scan moves on.
\<close>

definition block_end :: "string \<Rightarrow> bool" where
  "block_end line \<longleftrightarrow>
     line = [] \<or> str_find line ''Path '' = Some 0 \<or> str_find line ''End of'' \<noteq> None"

definition stage_step :: "parser_state \<Rightarrow> TimingPath \<Rightarrow> string \<Rightarrow> parser_state \<times> TimingPath" where
  "stage_step s p line =
     (if str_find line (path_id p @ ''.'') \<noteq> None then
        (case parsePathStage s line of
           (s', Inr (Some edge)) \<Rightarrow> (s', p\<lparr>edges := edges p @ [Some edge]\<rparr>)
         | (s', Inr None) \<Rightarrow> (s', p)
         | (s', Inl e) \<Rightarrow> (s', p))
      else (s, p))"

lemma parsePath_loop_unfold:
  "parsePath_loop lns s p i =
     (if i < length lns \<and> \<not> block_end (lns ! i)
      then parsePath_loop lns (fst (stage_step s p (lns ! i)))
             (snd (stage_step s p (lns ! i))) (i + 1)
      else (s, p, i))"
  by (subst parsePath_loop.simps)
     (simp add: block_end_def stage_step_def Let_def split: prod.splits sum.splits option.splits)

lemma parsePath_loop_index_ge:
  "parsePath_loop lns s p i = (s', p', n) \<Longrightarrow> i \<le> n"
proof (induction "length lns - i" arbitrary: i s p)
  case 0
  then show ?case by (subst (asm) parsePath_loop_unfold) simp
next
  case (Suc k)
  show ?case
  proof (cases "i < length lns \<and> \<not> block_end (lns ! i)")
    case True
    with Suc.prems
    have "parsePath_loop lns (fst (stage_step s p (lns ! i)))
            (snd (stage_step s p (lns ! i))) (i + 1) = (s', p', n)"
      by (subst (asm) parsePath_loop_unfold) simp
    moreover have "k = length lns - (i + 1)" using Suc.hyps(2) by simp
    ultimately have "i + 1 \<le> n" by (rule Suc.hyps(1)[rotated])
    then show ?thesis by simp
  next
    case False
    with Suc.prems show ?thesis by (subst (asm) parsePath_loop_unfold) auto
  qed
qed

lemma parsePath_index_gt:
  "parsePath s lns i = Inr (s', p', n) \<Longrightarrow> i < n"
  by (auto simp: parsePath_def split: sum.splits prod.splits dest!: parsePath_loop_index_ge)

text \<open>
  \<open>parseFile\<close>, from the point where the file has been read into \<open>lines\<close>: the scan for
  header lines. The exception of \<open>parsePath\<close> is caught and the scan moves one line on
  (the warning written to \<open>std::cerr\<close> is not part of the result). The parser state is
  the parser object's, so it is passed in and returned.
\<close>

function parseFile_loop ::
  "string list \<Rightarrow> parser_state \<Rightarrow> TimingPath list \<Rightarrow> nat \<Rightarrow> parser_state \<times> TimingPath list" where
  "parseFile_loop lns s paths lineIndex =
     (if lineIndex < length lns then
        (if lineIndex < length lns \<and> str_find (lns ! lineIndex) ''Path '' = Some 0 then
           (case parsePath s lns lineIndex of
              Inr (s', p, nextLine) \<Rightarrow> parseFile_loop lns s' (paths @ [p]) nextLine
            | Inl e \<Rightarrow> parseFile_loop lns s paths (lineIndex + 1))
         else parseFile_loop lns s paths (lineIndex + 1))
      else (s, paths))"
  by pat_completeness auto
termination
  by (relation "measure (\<lambda>(lns, s, paths, lineIndex). length lns - lineIndex)")
     (auto dest: parsePath_index_gt)

declare parseFile_loop.simps [simp del]

definition parseFile :: "parser_state \<Rightarrow> string list \<Rightarrow> parser_state \<times> TimingPath list" where
  "parseFile s lns = parseFile_loop lns s [] 0"

text \<open>A new \<open>TimingParser\<close>: an empty cache, and no node allocated yet.\<close>

definition new_parser :: parser_state where
  "new_parser =
     \<lparr>nodeCache = Map.empty,
      node_heap = (\<lambda>r. \<lparr>name = [], type = [], capacitance = 0, slew = 0\<rparr>),
      next_ref = 0\<rparr>"

section \<open>The analyzer (analyzer.h, analyzer.cpp)\<close>

record TimingPathAnalysis =
  path :: "TimingPath option"
  worstStageDelay :: real
  worstStage :: "TimingEdge option"
  optimizationSuggestion :: string

text \<open>The constructor \<open>TimingPathAnalysis(path)\<close>; the path pointer may be null.\<close>

definition TimingPathAnalysis_ctor :: "TimingPath option \<Rightarrow> TimingPathAnalysis" where
  "TimingPathAnalysis_ctor pp =
     (case pp of
        None \<Rightarrow>
          \<lparr>path = None, worstStageDelay = 0, worstStage = None,
           optimizationSuggestion = ''No path data available''\<rparr>
      | Some p \<Rightarrow>
          (let (d, edge) = getWorstStage p in
           \<lparr>path = Some p, worstStageDelay = d, worstStage = edge,
            optimizationSuggestion =
              (if edge = None then ''Insufficient path data for optimization suggestions''
               else [])\<rparr>))"

text \<open>
  The three suggestion generators. They read node names and types through the edge's
  pointers, so they take the heap \<open>h\<close> the pointers refer to.
\<close>

definition suggestFanoutOptimization :: "(node_ref \<Rightarrow> TimingNode) \<Rightarrow> TimingEdge option \<Rightarrow> string" where
  "suggestFanoutOptimization h edge =
     (case edge of
        Some e \<Rightarrow>
          (case (from e, to e) of
             (Some f, Some t) \<Rightarrow> ''balance fan-out after '' @ name (h f)
           | _ \<Rightarrow> ''balance fan-out in the critical path'')
      | None \<Rightarrow> ''balance fan-out in the critical path'')"

definition suggestCellReplacement :: "(node_ref \<Rightarrow> TimingNode) \<Rightarrow> TimingEdge option \<Rightarrow> string" where
  "suggestCellReplacement h edge =
     (case edge of
        Some e \<Rightarrow>
          (case from e of
             Some f \<Rightarrow>
               (if type (h f) \<noteq> ''net'' then
                  (let cellName = name (h f) in
                   ''replace '' @ cellName @ '' with '' @
                   (if str_find cellName ''INV'' \<noteq> None then cellName @ ''_HF''
                    else if str_find cellName ''BUF'' \<noteq> None then cellName @ ''_X4''
                    else if str_find cellName ''NAND'' \<noteq> None \<or> str_find cellName ''NOR'' \<noteq> None
                    then cellName @ ''_HS''
                    else ''a faster variant of '' @ cellName))
                else ''use faster cell library for critical path cells'')
           | None \<Rightarrow> ''use faster cell library for critical path cells'')
      | None \<Rightarrow> ''use faster cell library for critical path cells'')"

text \<open>
  The separator between the two names is the eight bytes the source file has between the
  spaces of its string literal.
\<close>

definition arrow :: string where
  "arrow = [CHR 0xC3, CHR 0xA2, CHR 0xE2, CHR 0x80, CHR 0xA0, CHR 0xE2, CHR 0x80, CHR 0x99]"

definition suggestPipelineInsertion :: "(node_ref \<Rightarrow> TimingNode) \<Rightarrow> TimingEdge option \<Rightarrow> string" where
  "suggestPipelineInsertion h edge =
     (case edge of
        Some e \<Rightarrow>
          (case (from e, to e) of
             (Some f, Some t) \<Rightarrow>
               ''insert pipeline register between '' @ name (h f) @ '' '' @ arrow @ '' '' @
               name (h t)
           | _ \<Rightarrow> ''insert pipeline register in the critical path'')
      | None \<Rightarrow> ''insert pipeline register in the critical path'')"

definition analyzePath :: "(node_ref \<Rightarrow> TimingNode) \<Rightarrow> TimingPath \<Rightarrow> TimingPathAnalysis" where
  "analyzePath h p =
     (let analysis = TimingPathAnalysis_ctor (Some p) in
      case worstStage analysis of
        None \<Rightarrow>
          analysis\<lparr>optimizationSuggestion :=
            ''Insufficient path data for optimization suggestions.''\<rparr>
      | Some worstEdge \<Rightarrow>
          if from worstEdge = None \<or> to worstEdge = None then
            analysis\<lparr>optimizationSuggestion :=
              ''Insufficient path data for optimization suggestions.''\<rparr>
          else if netDelay worstEdge > cellDelay worstEdge \<and>
                  netDelay worstEdge > 0.5 * worstStageDelay analysis then
            analysis\<lparr>optimizationSuggestion := suggestPipelineInsertion h (Some worstEdge)\<rparr>
          else if cellDelay worstEdge > netDelay worstEdge \<and>
                  cellDelay worstEdge > 0.5 * worstStageDelay analysis then
            analysis\<lparr>optimizationSuggestion := suggestCellReplacement h (Some worstEdge)\<rparr>
          else
            analysis\<lparr>optimizationSuggestion := suggestFanoutOptimization h (Some worstEdge)\<rparr>)"

subsection \<open>The library's \<open>std::sort\<close>\<close>

text \<open>
  \<open>findCriticalPaths\<close> sorts with \<open>std::sort\<close>. \<open>std_sort\<close> is the \<open>std::sort\<close> of the GNU C++
  library (\<open>bits/stl_algo.h\<close>): an introsort, that is, quicksort with the median of three
  as pivot down to ranges of 16 elements, heapsort where the recursion gets deeper than
  twice the logarithm of the size, and one insertion sort over the whole array at the end.
\<close>

text \<open>
  The array is a list and an iterator is an index into it; every function returns the
  array it leaves. \<open>lst\<close> stands for the iterator \<open>last\<close> of the library.
\<close>

definition iter_swap :: "'a list \<Rightarrow> nat \<Rightarrow> nat \<Rightarrow> 'a list" where
  "iter_swap xs a b = xs[a := xs ! b, b := xs ! a]"

text \<open>\<open>std::__lg\<close>: the position of the highest bit that is set.\<close>

fun lg :: "nat \<Rightarrow> nat" where
  "lg n = (if n < 2 then 0 else Suc (lg (n div 2)))"

declare lg.simps [simp del]

text \<open>
  The heap functions (\<open>bits/stl_heap.h\<close>), which sort a range on which the recursion has
  used up its depth. \<open>(holeIndex - 1) / 2\<close> is 0 for \<open>holeIndex = 0\<close> in C++ as it is on the
  naturals, and so is \<open>(len - 1) / 2\<close> for \<open>len = 0\<close>; \<open>(len - 2) / 2\<close> is negative for
  \<open>len < 2\<close>, where the test that compares it with \<open>secondChild\<close> fails.
\<close>

fun push_heap :: "('a \<Rightarrow> 'a \<Rightarrow> bool) \<Rightarrow> 'a list \<Rightarrow> nat \<Rightarrow> nat \<Rightarrow> nat \<Rightarrow> 'a \<Rightarrow> 'a list" where
  "push_heap cmp xs first holeIndex topIndex val =
     (let parent = (holeIndex - 1) div 2
      in if holeIndex > topIndex \<and> cmp (xs ! (first + parent)) val
         then push_heap cmp (xs[first + holeIndex := xs ! (first + parent)]) first parent topIndex val
         else xs[first + holeIndex := val])"

declare push_heap.simps [simp del]

function adjust_heap_loop ::
  "('a \<Rightarrow> 'a \<Rightarrow> bool) \<Rightarrow> 'a list \<Rightarrow> nat \<Rightarrow> nat \<Rightarrow> nat \<Rightarrow> nat \<Rightarrow> 'a list \<times> nat \<times> nat" where
  "adjust_heap_loop cmp xs first holeIndex secondChild len =
     (if secondChild < (len - 1) div 2
      then (let sc = 2 * (secondChild + 1);
                sc' = (if cmp (xs ! (first + sc)) (xs ! (first + (sc - 1))) then sc - 1 else sc)
            in adjust_heap_loop cmp (xs[first + holeIndex := xs ! (first + sc')]) first sc' sc' len)
      else (xs, holeIndex, secondChild))"
  by pat_completeness auto
termination
  by (relation "measure (\<lambda>(cmp, xs, first, holeIndex, secondChild, len). len - secondChild)") auto

declare adjust_heap_loop.simps [simp del]

definition adjust_heap ::
  "('a \<Rightarrow> 'a \<Rightarrow> bool) \<Rightarrow> 'a list \<Rightarrow> nat \<Rightarrow> nat \<Rightarrow> nat \<Rightarrow> 'a \<Rightarrow> 'a list" where
  "adjust_heap cmp xs first holeIndex len val =
     (let topIndex = holeIndex;
          (xs1, hole1, sc1) = adjust_heap_loop cmp xs first holeIndex holeIndex len;
          (xs2, hole2) =
            (if len mod 2 = 0 \<and> 2 \<le> len \<and> sc1 = (len - 2) div 2
             then (let sc2 = 2 * (sc1 + 1)
                   in (xs1[first + hole1 := xs1 ! (first + (sc2 - 1))], sc2 - 1))
             else (xs1, hole1))
      in push_heap cmp xs2 first hole2 topIndex val)"

definition pop_heap :: "('a \<Rightarrow> 'a \<Rightarrow> bool) \<Rightarrow> 'a list \<Rightarrow> nat \<Rightarrow> nat \<Rightarrow> nat \<Rightarrow> 'a list" where
  "pop_heap cmp xs first lst result =
     (let val = xs ! result
      in adjust_heap cmp (xs[result := xs ! first]) first 0 (lst - first) val)"

fun make_heap_loop :: "('a \<Rightarrow> 'a \<Rightarrow> bool) \<Rightarrow> 'a list \<Rightarrow> nat \<Rightarrow> nat \<Rightarrow> nat \<Rightarrow> 'a list" where
  "make_heap_loop cmp xs first len 0 = adjust_heap cmp xs first 0 len (xs ! first)"
| "make_heap_loop cmp xs first len (Suc parent) =
     make_heap_loop cmp (adjust_heap cmp xs first (Suc parent) len (xs ! (first + Suc parent)))
       first len parent"

definition make_heap :: "('a \<Rightarrow> 'a \<Rightarrow> bool) \<Rightarrow> 'a list \<Rightarrow> nat \<Rightarrow> nat \<Rightarrow> 'a list" where
  "make_heap cmp xs first lst =
     (if lst - first < 2 then xs
      else make_heap_loop cmp xs first (lst - first) ((lst - first - 2) div 2))"

definition heap_select ::
  "('a \<Rightarrow> 'a \<Rightarrow> bool) \<Rightarrow> 'a list \<Rightarrow> nat \<Rightarrow> nat \<Rightarrow> nat \<Rightarrow> 'a list" where
  "heap_select cmp xs first middle lst =
     fold (\<lambda>i ys. if cmp (ys ! i) (ys ! first) then pop_heap cmp ys first middle i else ys)
       [middle ..< lst] (make_heap cmp xs first middle)"

fun sort_heap :: "('a \<Rightarrow> 'a \<Rightarrow> bool) \<Rightarrow> 'a list \<Rightarrow> nat \<Rightarrow> nat \<Rightarrow> 'a list" where
  "sort_heap cmp xs first lst =
     (if lst - first > 1
      then sort_heap cmp (pop_heap cmp xs first (lst - 1) (lst - 1)) first (lst - 1)
      else xs)"

declare sort_heap.simps [simp del]

definition partial_sort ::
  "('a \<Rightarrow> 'a \<Rightarrow> bool) \<Rightarrow> 'a list \<Rightarrow> nat \<Rightarrow> nat \<Rightarrow> nat \<Rightarrow> 'a list" where
  "partial_sort cmp xs first middle lst =
     sort_heap cmp (heap_select cmp xs first middle lst) first middle"

text \<open>
  The partition around the median of three. The two scans of \<open>__unguarded_partition\<close> have
  no bounds check in the library, which relies on an element that stops them; here they
  stop at the ends of the array as well, which makes them total.
\<close>

definition move_median_to_first ::
  "('a \<Rightarrow> 'a \<Rightarrow> bool) \<Rightarrow> 'a list \<Rightarrow> nat \<Rightarrow> nat \<Rightarrow> nat \<Rightarrow> nat \<Rightarrow> 'a list" where
  "move_median_to_first cmp xs result a b c =
     (if cmp (xs ! a) (xs ! b) then
        (if cmp (xs ! b) (xs ! c) then iter_swap xs result b
         else if cmp (xs ! a) (xs ! c) then iter_swap xs result c
         else iter_swap xs result a)
      else if cmp (xs ! a) (xs ! c) then iter_swap xs result a
      else if cmp (xs ! b) (xs ! c) then iter_swap xs result c
      else iter_swap xs result b)"

function scan_up :: "('a \<Rightarrow> 'a \<Rightarrow> bool) \<Rightarrow> 'a list \<Rightarrow> nat \<Rightarrow> nat \<Rightarrow> nat" where
  "scan_up cmp xs pivot first =
     (if first < length xs \<and> cmp (xs ! first) (xs ! pivot)
      then scan_up cmp xs pivot (first + 1) else first)"
  by pat_completeness auto
termination
  by (relation "measure (\<lambda>(cmp, xs, pivot, first). length xs - first)") auto

declare scan_up.simps [simp del]

fun scan_down :: "('a \<Rightarrow> 'a \<Rightarrow> bool) \<Rightarrow> 'a list \<Rightarrow> nat \<Rightarrow> nat \<Rightarrow> nat" where
  "scan_down cmp xs pivot lst =
     (if 0 < lst \<and> cmp (xs ! pivot) (xs ! lst)
      then scan_down cmp xs pivot (lst - 1) else lst)"

declare scan_down.simps [simp del]

lemma scan_up_ge: "first \<le> scan_up cmp xs pivot first"
proof (induction cmp xs pivot first rule: scan_up.induct)
  case (1 cmp xs pivot first)
  show ?case
  proof (cases "first < length xs \<and> cmp (xs ! first) (xs ! pivot)")
    case True
    with 1 have "first + 1 \<le> scan_up cmp xs pivot (first + 1)" by simp
    then have "first \<le> scan_up cmp xs pivot (first + 1)" by simp
    with True show ?thesis by (subst scan_up.simps) simp
  next
    case False
    then show ?thesis by (subst scan_up.simps) auto
  qed
qed

lemma scan_down_le: "scan_down cmp xs pivot lst \<le> lst"
proof (induction cmp xs pivot lst rule: scan_down.induct)
  case (1 cmp xs pivot lst)
  show ?case
  proof (cases "0 < lst \<and> cmp (xs ! pivot) (xs ! lst)")
    case True
    with 1 have "scan_down cmp xs pivot (lst - 1) \<le> lst - 1" by simp
    then have "scan_down cmp xs pivot (lst - 1) \<le> lst" by simp
    with True show ?thesis by (subst scan_down.simps) simp
  next
    case False
    then show ?thesis by (subst scan_down.simps) auto
  qed
qed

function unguarded_partition ::
  "('a \<Rightarrow> 'a \<Rightarrow> bool) \<Rightarrow> 'a list \<Rightarrow> nat \<Rightarrow> nat \<Rightarrow> nat \<Rightarrow> nat \<times> 'a list" where
  "unguarded_partition cmp xs first lst pivot =
     (let first' = scan_up cmp xs pivot first;
          lst' = scan_down cmp xs pivot (lst - 1)
      in if \<not> first' < lst' then (first', xs)
         else unguarded_partition cmp (iter_swap xs first' lst') (first' + 1) lst' pivot)"
  by pat_completeness auto
termination
proof (relation "measure (\<lambda>(cmp, xs, first, lst, pivot). lst - first)", goal_cases)
  case 1
  show ?case by simp
next
  case (2 cmp xs first lst pivot f l)
  have "first \<le> f" unfolding 2(1) by (rule scan_up_ge)
  moreover have "l \<le> lst - 1" unfolding 2(2) by (rule scan_down_le)
  ultimately show ?case using 2(3) by simp
qed

declare unguarded_partition.simps [simp del]

definition unguarded_partition_pivot ::
  "('a \<Rightarrow> 'a \<Rightarrow> bool) \<Rightarrow> 'a list \<Rightarrow> nat \<Rightarrow> nat \<Rightarrow> nat \<times> 'a list" where
  "unguarded_partition_pivot cmp xs first lst =
     (let mid = first + (lst - first) div 2
      in unguarded_partition cmp
           (move_median_to_first cmp xs first (first + 1) mid (lst - 1)) (first + 1) lst first)"

text \<open>
  \<open>__introsort_loop\<close>: ranges of more than 16 elements are partitioned, the upper part by
  a recursive call and the lower part by the next round of the loop; ranges of at most
  16 elements are left as they are.
\<close>

function introsort_loop ::
  "('a \<Rightarrow> 'a \<Rightarrow> bool) \<Rightarrow> 'a list \<Rightarrow> nat \<Rightarrow> nat \<Rightarrow> nat \<Rightarrow> 'a list" where
  "introsort_loop cmp xs first lst depth_limit =
     (if lst - first > 16 then
        (if depth_limit = 0 then partial_sort cmp xs first lst lst
         else (let (cut, xs') = unguarded_partition_pivot cmp xs first lst;
                   xs'' = introsort_loop cmp xs' cut lst (depth_limit - 1)
               in introsort_loop cmp xs'' first cut (depth_limit - 1)))
      else xs)"
  by pat_completeness auto
termination
  by (relation "measure (\<lambda>(cmp, xs, first, lst, depth_limit). depth_limit)") auto

declare introsort_loop.simps [simp del]

text \<open>
  The insertion sort that finishes the work. \<open>std::move_backward\<close> copies from the back;
  \<open>__unguarded_linear_insert\<close> relies on an element that stops it, and stops here at the
  start of the array as well.
\<close>

fun unguarded_linear_insert_loop ::
  "('a \<Rightarrow> 'a \<Rightarrow> bool) \<Rightarrow> 'a list \<Rightarrow> 'a \<Rightarrow> nat \<Rightarrow> 'a list" where
  "unguarded_linear_insert_loop cmp xs val lst =
     (if 0 < lst \<and> cmp val (xs ! (lst - 1))
      then unguarded_linear_insert_loop cmp (xs[lst := xs ! (lst - 1)]) val (lst - 1)
      else xs[lst := val])"

declare unguarded_linear_insert_loop.simps [simp del]

definition unguarded_linear_insert :: "('a \<Rightarrow> 'a \<Rightarrow> bool) \<Rightarrow> 'a list \<Rightarrow> nat \<Rightarrow> 'a list" where
  "unguarded_linear_insert cmp xs lst = unguarded_linear_insert_loop cmp xs (xs ! lst) lst"

definition move_backward :: "'a list \<Rightarrow> nat \<Rightarrow> nat \<Rightarrow> nat \<Rightarrow> 'a list" where
  "move_backward xs first lst d_last =
     fold (\<lambda>k ys. ys[d_last - k := ys ! (lst - k)]) [1 ..< Suc (lst - first)] xs"

definition insertion_sort :: "('a \<Rightarrow> 'a \<Rightarrow> bool) \<Rightarrow> 'a list \<Rightarrow> nat \<Rightarrow> nat \<Rightarrow> 'a list" where
  "insertion_sort cmp xs first lst =
     (if first = lst then xs
      else fold (\<lambda>i ys. if cmp (ys ! i) (ys ! first)
                        then (let val = ys ! i in (move_backward ys first i (i + 1))[first := val])
                        else unguarded_linear_insert cmp ys i)
             [first + 1 ..< lst] xs)"

definition unguarded_insertion_sort ::
  "('a \<Rightarrow> 'a \<Rightarrow> bool) \<Rightarrow> 'a list \<Rightarrow> nat \<Rightarrow> nat \<Rightarrow> 'a list" where
  "unguarded_insertion_sort cmp xs first lst =
     fold (\<lambda>i ys. unguarded_linear_insert cmp ys i) [first ..< lst] xs"

definition final_insertion_sort ::
  "('a \<Rightarrow> 'a \<Rightarrow> bool) \<Rightarrow> 'a list \<Rightarrow> nat \<Rightarrow> nat \<Rightarrow> 'a list" where
  "final_insertion_sort cmp xs first lst =
     (if lst - first > 16
      then unguarded_insertion_sort cmp (insertion_sort cmp xs first (first + 16)) (first + 16) lst
      else insertion_sort cmp xs first lst)"

text \<open>\<open>std::sort(first, last, comp)\<close> on the whole array.\<close>

definition std_sort :: "('a \<Rightarrow> 'a \<Rightarrow> bool) \<Rightarrow> 'a list \<Rightarrow> 'a list" where
  "std_sort cmp xs =
     (if xs \<noteq> []
      then final_insertion_sort cmp
             (introsort_loop cmp xs 0 (length xs) (lg (length xs) * 2)) 0 (length xs)
      else xs)"

subsection \<open>\<open>findCriticalPaths\<close>\<close>

text \<open>
  The comparator is the lambda passed to \<open>std::sort\<close>. The C++ standard fixes of
  \<open>std::sort\<close> only that the result is a rearrangement of the input, ordered by the
  comparator; which of two equivalent elements comes first is left to the library. So
  the sorting function is a parameter \<open>srt\<close> of \<open>findCriticalPaths\<close>, to be instantiated by
  \<open>std_sort\<close>, and \<open>std_sort_contract srt xs\<close> says what the standard guarantees for the call
  of \<open>srt\<close> on \<open>xs\<close>.
\<close>

definition delay_desc :: "TimingPath \<Rightarrow> TimingPath \<Rightarrow> bool" where
  "delay_desc a b \<longleftrightarrow> totalDelay a > totalDelay b"

definition std_sort_contract ::
  "((TimingPath \<Rightarrow> TimingPath \<Rightarrow> bool) \<Rightarrow> TimingPath list \<Rightarrow> TimingPath list) \<Rightarrow>
   TimingPath list \<Rightarrow> bool" where
  "std_sort_contract srt xs \<longleftrightarrow>
     mset (srt delay_desc xs) = mset xs \<and>
     sorted_wrt (\<lambda>a b. \<not> delay_desc b a) (srt delay_desc xs)"

text \<open>
  \<open>static_cast<int>(pathPtrs.size())\<close>: the size read as a signed 32-bit integer.
  \<open>topK\<close> is an \<open>int\<close> of the program, given here by its value.
\<close>

definition int_of_size :: "nat \<Rightarrow> int" where
  "int_of_size n = ((int n + 2 ^ 31) mod 2 ^ 32) - 2 ^ 31"

definition findCriticalPaths ::
  "((TimingPath \<Rightarrow> TimingPath \<Rightarrow> bool) \<Rightarrow> TimingPath list \<Rightarrow> TimingPath list) \<Rightarrow>
   (node_ref \<Rightarrow> TimingNode) \<Rightarrow> TimingPath list \<Rightarrow> int \<Rightarrow> TimingPathAnalysis list" where
  "findCriticalPaths srt h paths topK =
     (let pathPtrs = srt delay_desc paths in
      map (\<lambda>i. analyzePath h (pathPtrs ! i))
        [0 ..< nat (min topK (int_of_size (length pathPtrs)))])"

section \<open>The specification's wording, and examples\<close>

subsection \<open>Worst stage and suggestion\<close>

text \<open>The edges of a path that are not null, in path order.\<close>

definition nonnull :: "TimingEdge option list \<Rightarrow> TimingEdge list" where
  "nonnull es = concat (map (\<lambda>eo. case eo of None \<Rightarrow> [] | Some e \<Rightarrow> [e]) es)"

definition present_edges :: "TimingPath \<Rightarrow> TimingEdge list" where
  "present_edges p = nonnull (edges p)"

text \<open>
  The worst stage as the specification words it: the maximum delay over the edges, and
  the first edge, in path order, that attains it; delay 0 and no edge for a path without
  edges.
\<close>

definition spec_worst_stage :: "TimingPath \<Rightarrow> real \<times> TimingEdge option" where
  "spec_worst_stage p =
     (if present_edges p = [] then (0, None)
      else (Max (set (map delay (present_edges p))),
            find (\<lambda>e. delay e = Max (set (map delay (present_edges p)))) (present_edges p)))"

text \<open>
  The three-way classification as the specification words it, for an edge whose two
  endpoint pointers are set.
\<close>

definition spec_suggestion :: "(node_ref \<Rightarrow> TimingNode) \<Rightarrow> TimingEdge \<Rightarrow> real \<Rightarrow> string" where
  "spec_suggestion h e worstDelay =
     (let src = h (the (from e)); dst = h (the (to e)) in
      if netDelay e > cellDelay e \<and> netDelay e > worstDelay / 2 then
        ''insert pipeline register between '' @ name src @ '' '' @ arrow @ '' '' @ name dst
      else if cellDelay e > netDelay e \<and> cellDelay e > worstDelay / 2 then
        (if type src = ''net'' then ''use faster cell library for critical path cells''
         else ''replace '' @ name src @ '' with '' @
           (if sublist ''INV'' (name src) then name src @ ''_HF''
            else if sublist ''BUF'' (name src) then name src @ ''_X4''
            else if sublist ''NAND'' (name src) \<or> sublist ''NOR'' (name src)
            then name src @ ''_HS''
            else ''a faster variant of '' @ name src))
      else ''balance fan-out after '' @ name src)"

text \<open>Example nodes, edges and paths, in the style of the analyzer tests.\<close>

definition example_heap :: "node_ref \<Rightarrow> TimingNode" where
  "example_heap =
     (\<lambda>r. \<lparr>name = ''X'', type = ''cell'', capacitance = 0, slew = 0\<rparr>)
       (0 := \<lparr>name = ''INV1'', type = ''cell'', capacitance = 0, slew = 0\<rparr>,
        1 := \<lparr>name = ''NET1'', type = ''net'', capacitance = 0, slew = 0\<rparr>,
        2 := \<lparr>name = ''CELL2'', type = ''cell'', capacitance = 0, slew = 0\<rparr>)"

definition example_edge :: "nat \<Rightarrow> nat \<Rightarrow> real \<Rightarrow> real \<Rightarrow> real \<Rightarrow> TimingEdge" where
  "example_edge f t d nd cd =
     \<lparr>from = Some f, to = Some t, delay = d, netDelay = nd, cellDelay = cd\<rparr>"

definition example_path :: "TimingEdge option list \<Rightarrow> TimingPath" where
  "example_path es =
     \<lparr>path_id = ''P1'', startpoint = ''TEST_START'', endpoint = ''TEST_END'',
      totalDelay = 5, edges = es\<rparr>"

text \<open>An edge of delay 0, and a path whose second and third edge tie at the maximum.\<close>

definition zero_edge :: TimingEdge where
  "zero_edge = example_edge 0 1 0 0 0"

definition tie_path :: TimingPath where
  "tie_path =
     example_path
       [Some (example_edge 0 1 1 0 1), Some (example_edge 1 2 3 3 0),
        Some (example_edge 2 0 3 0 3), Some (example_edge 0 2 2 0 2)]"

subsection \<open>Ranking\<close>

text \<open>
  The ranking as the specification words it: a stable sort by descending \<open>totalDelay\<close>
  (\<open>sort_key\<close> is the stable insertion sort of the library), and of it the first \<open>K\<close>
  paths, none for \<open>K \<le> 0\<close>.
\<close>

definition spec_ranking :: "TimingPath list \<Rightarrow> int \<Rightarrow> TimingPath list" where
  "spec_ranking paths K = take (nat K) (sort_key (\<lambda>p. - totalDelay p) paths)"

text \<open>
  Seventeen paths of equal delay, with the ids A to Q, and the three paths of the analyzer
  test.
\<close>

definition tied_paths :: "TimingPath list" where
  "tied_paths =
     map (\<lambda>c. \<lparr>path_id = [c], startpoint = ''S'', endpoint = ''E'', totalDelay = 5, edges = []\<rparr>)
       ''ABCDEFGHIJKLMNOPQ''"

definition test_paths :: "TimingPath list" where
  "test_paths =
     [\<lparr>path_id = ''P1'', startpoint = ''S'', endpoint = ''E'', totalDelay = 5, edges = []\<rparr>,
      \<lparr>path_id = ''P2'', startpoint = ''S'', endpoint = ''E'', totalDelay = 4, edges = []\<rparr>,
      \<lparr>path_id = ''P3'', startpoint = ''S'', endpoint = ''E'', totalDelay = 6, edges = []\<rparr>]"

subsection \<open>Parse sessions\<close>

text \<open>
  \<open>cache_inv\<close>: every cached pointer is an allocated address, and the node there bears
  the name it is cached under. \<open>extends s s'\<close>: from \<open>s\<close> to \<open>s'\<close> the session only
  allocated new nodes and added cache entries; no node was changed and no entry was
  removed or rebound.
\<close>

definition cache_inv :: "parser_state \<Rightarrow> bool" where
  "cache_inv s \<longleftrightarrow>
     (\<forall>nm r. nodeCache s nm = Some r \<longrightarrow> r < next_ref s \<and> name (node_heap s r) = nm)"

definition extends :: "parser_state \<Rightarrow> parser_state \<Rightarrow> bool" where
  "extends s s' \<longleftrightarrow>
     next_ref s \<le> next_ref s' \<and>
     (\<forall>r. r < next_ref s \<longrightarrow> node_heap s' r = node_heap s r) \<and>
     (\<forall>nm r. nodeCache s nm = Some r \<longrightarrow> nodeCache s' nm = Some r)"

text \<open>
  \<open>edge_split\<close>: the delay of an edge is attributed as a whole to the net or to the
  cell, by the type of its source node. \<open>edge_cached\<close>: both endpoint pointers of an
  edge are set, and each is the pointer the cache holds for that node's name.
\<close>

definition edge_split :: "parser_state \<Rightarrow> TimingEdge \<Rightarrow> bool" where
  "edge_split s e \<longleftrightarrow>
     from e \<noteq> None \<and> to e \<noteq> None \<and>
     delay e = netDelay e + cellDelay e \<and>
     (if type (node_heap s (the (from e))) = ''net''
      then netDelay e = delay e \<and> cellDelay e = 0
      else cellDelay e = delay e \<and> netDelay e = 0)"

definition edge_cached :: "parser_state \<Rightarrow> TimingEdge \<Rightarrow> bool" where
  "edge_cached s e \<longleftrightarrow>
     (\<exists>f t. from e = Some f \<and> to e = Some t \<and>
        nodeCache s (name (node_heap s f)) = Some f \<and>
        nodeCache s (name (node_heap s t)) = Some t)"

definition path_inv :: "parser_state \<Rightarrow> TimingPath \<Rightarrow> bool" where
  "path_inv s p \<longleftrightarrow>
     (\<forall>eo \<in> set (edges p). \<exists>e. eo = Some e \<and> edge_split s e \<and> edge_cached s e)"

text \<open>For the proofs, one round of the scan of \<open>parseFile\<close>: the paths it adds, and the next line.\<close>

definition file_step :: "parser_state \<Rightarrow> string list \<Rightarrow> nat \<Rightarrow> parser_state \<times> TimingPath list \<times> nat" where
  "file_step s lns i =
     (if str_find (lns ! i) ''Path '' = Some 0 then
        (case parsePath s lns i of
           Inr (s', p, nextLine) \<Rightarrow> (s', [p], nextLine)
         | Inl e \<Rightarrow> (s, [], i + 1))
      else (s, [], i + 1))"

text \<open>The report of scenario A, and the state and the path it is parsed to.\<close>

definition scenarioA :: "string list" where
  "scenarioA = [''Path P1 FF_Q PI 2.345'', ''P1.1 NET1 PI 0.123'', ''P1.2 INV1 NET1 0.456'']"

definition scenarioA_state :: parser_state where
  "scenarioA_state =
     \<lparr>nodeCache = [''PI'' \<mapsto> 0, ''NET1'' \<mapsto> 1, ''INV1'' \<mapsto> 2],
      node_heap =
        (\<lambda>r. \<lparr>name = [], type = [], capacitance = 0, slew = 0\<rparr>)
        (0 := \<lparr>name = ''PI'', type = ''primary_input'', capacitance = 0, slew = 0\<rparr>,
         1 := \<lparr>name = ''NET1'', type = ''net'', capacitance = 0, slew = 0\<rparr>,
         2 := \<lparr>name = ''INV1'', type = ''inverter'', capacitance = 0, slew = 0\<rparr>),
      next_ref = 3\<rparr>"

definition scenarioA_edge0 :: TimingEdge where
  "scenarioA_edge0 =
     \<lparr>from = Some 0, to = Some 1, delay = 0.123, netDelay = 0, cellDelay = 0.123\<rparr>"

definition scenarioA_edge1 :: TimingEdge where
  "scenarioA_edge1 =
     \<lparr>from = Some 1, to = Some 2, delay = 0.456, netDelay = 0.456, cellDelay = 0\<rparr>"

definition scenarioA_path :: TimingPath where
  "scenarioA_path =
     \<lparr>path_id = ''P1'', startpoint = ''PI'', endpoint = ''FF_Q'', totalDelay = 2.345,
      edges = [Some scenarioA_edge0, Some scenarioA_edge1]\<rparr>"

text \<open>The node pointers that the edges of a list of paths hold.\<close>

definition path_nodes :: "TimingPath list \<Rightarrow> node_ref set" where
  "path_nodes paths =
     {r. \<exists>p \<in> set paths. \<exists>e. Some e \<in> set (edges p) \<and> (from e = Some r \<or> to e = Some r)}"

subsection \<open>Blocks and headers\<close>

text \<open>
  The stage scan as the specification words it. A line ends the block when it is empty,
  begins with \<open>Path \<close> or contains \<open>End of\<close>; the block of a header is the run of lines
  after it up to the first such line; its stage lines are those containing the path id
  followed by a dot. \<open>run_stage_lines\<close> hands stage lines to \<open>parsePathStage\<close> in order and
  collects the edges; a line that yields no edge is skipped.
\<close>

definition block_terminator :: "string \<Rightarrow> bool" where
  "block_terminator l \<longleftrightarrow> l = [] \<or> prefix ''Path '' l \<or> sublist ''End of'' l"

definition spec_block :: "string list \<Rightarrow> nat \<Rightarrow> string list" where
  "spec_block lns startLine = takeWhile (\<lambda>l. \<not> block_terminator l) (drop (startLine + 1) lns)"

definition spec_stage_lines :: "string \<Rightarrow> string list \<Rightarrow> string list" where
  "spec_stage_lines pid blk = filter (\<lambda>l. sublist (pid @ ''.'') l) blk"

fun run_stage_lines :: "parser_state \<Rightarrow> string list \<Rightarrow> parser_state \<times> TimingEdge option list" where
  "run_stage_lines s [] = (s, [])"
| "run_stage_lines s (l # ls) =
     (case parsePathStage s l of
        (s1, r) \<Rightarrow>
          (case run_stage_lines s1 ls of
             (s2, es) \<Rightarrow> (s2, (case r of Inr (Some e) \<Rightarrow> [Some e] | _ \<Rightarrow> []) @ es)))"

text \<open>
  The index the claim gives: the one after the last line examined, which is the line
  that ended the block when there is one.
\<close>

definition claimed_next_index :: "string list \<Rightarrow> nat \<Rightarrow> nat" where
  "claimed_next_index lns startLine =
     (let stop = startLine + 1 + length (spec_block lns startLine)
      in if stop < length lns then stop + 1 else stop)"

text \<open>A report of two paths, the second header right after the stage line of the first.\<close>

definition two_blocks :: "string list" where
  "two_blocks = [''Path P1 FF_Q PI 2.345'', ''P1.1 NET1 PI 0.123'', ''Path P2 NAND1_Y PI2 3.210'']"

text \<open>
  The header fields of a path, and the header a line of the report stands for: a line is
  a header line when it begins with \<open>Path \<close>, and it is well formed when \<open>parsePathHeader\<close>
  accepts it.
\<close>

definition path_header :: "TimingPath \<Rightarrow> string \<times> string \<times> string \<times> real" where
  "path_header p = (path_id p, startpoint p, endpoint p, totalDelay p)"

definition header_of_line :: "string \<Rightarrow> (string \<times> string \<times> string \<times> real) option" where
  "header_of_line l =
     (if prefix ''Path '' l
      then (case parsePathHeader l of Inr h \<Rightarrow> Some h | Inl e \<Rightarrow> None)
      else None)"

text \<open>
  A report in the layout of the parser test, its two path headers beginning with
  \<open>Path \<close>; the title line begins with \<open>Path \<close> too and is no header.
\<close>

definition test_report :: "string list" where
  "test_report =
     [''Path   Endpoint   Startpoint   Delay'',
      ''------------------------------------------------'',
      ''Path P1     FF_Q        PI          2.345'',
      ''P1.1   NET1        PI          0.123'',
      ''P1.2   INV1        NET1        0.456'',
      ''Path P2     NAND1_Y     PI2         3.210'',
      ''P2.1   NET3        PI2         0.210'',
      ''P2.2   BUF1        NET3        0.450'',
      ''End of report'']"

text \<open>
  The header format of the specification: \<open>Path\<close>, the id, the endpoint, the startpoint
  and the delay, separated by runs of whitespace; the delay is a non-negative decimal
  (digits, optionally a dot and more digits) that ends the line or is followed by
  whitespace. \<open>header_format l h\<close> says that the line \<open>l\<close> has this format and that \<open>h\<close> is
  the header it spells: id, startpoint, endpoint and the value of the decimal.
\<close>

definition header_format :: "string \<Rightarrow> string \<times> string \<times> string \<times> real \<Rightarrow> bool" where
  "header_format l h \<longleftrightarrow>
     (\<exists>w0 pid w1 ep w2 sp w3 ip dot fp rest.
        l = ''Path'' @ w0 @ pid @ w1 @ ep @ w2 @ sp @ w3 @ (ip @ dot @ fp) @ rest \<and>
        h = (pid, sp, ep, real (digits_val ip) + real (digits_val fp) / 10 ^ length fp) \<and>
        w0 \<noteq> [] \<and> (\<forall>c \<in> set w0. isspace c) \<and> w1 \<noteq> [] \<and> (\<forall>c \<in> set w1. isspace c) \<and>
        w2 \<noteq> [] \<and> (\<forall>c \<in> set w2. isspace c) \<and> w3 \<noteq> [] \<and> (\<forall>c \<in> set w3. isspace c) \<and>
        pid \<noteq> [] \<and> (\<forall>c \<in> set pid. \<not> isspace c) \<and> ep \<noteq> [] \<and> (\<forall>c \<in> set ep. \<not> isspace c) \<and>
        sp \<noteq> [] \<and> (\<forall>c \<in> set sp. \<not> isspace c) \<and>
        ip \<noteq> [] \<and> (\<forall>c \<in> set ip. isdigit c) \<and> (\<forall>c \<in> set fp. isdigit c) \<and>
        (dot = [] \<and> fp = [] \<or> dot = ''.'') \<and>
        \<not> out_of_double_range (real (digits_val ip) + real (digits_val fp) / 10 ^ length fp) \<and>
        (rest = [] \<or> isspace (hd rest)))"

text \<open>
  A header line whose delay, a one followed by 309 zeros, is too large for a \<open>double\<close>.
\<close>

definition overflow_header :: string where
  "overflow_header = ''Path P A B 1'' @ replicate 309 CHR ''0''"

subsection \<open>Node categories\<close>

text \<open>
  The category of a name as the specification lists the checks, one chain for both
  roles: NET, then FF or FLOP, then PI (sources only), then INV, BUF, NAND, NOR, then PO
  (destinations only), the first match winning.
\<close>

datatype role = Source | Destination

definition spec_category :: "role \<Rightarrow> string \<Rightarrow> string" where
  "spec_category rl nm =
     (if sublist ''NET'' nm then ''net''
      else if sublist ''FF'' nm \<or> sublist ''FLOP'' nm then ''flop''
      else if rl = Source \<and> sublist ''PI'' nm then ''primary_input''
      else if sublist ''INV'' nm then ''inverter''
      else if sublist ''BUF'' nm then ''buffer''
      else if sublist ''NAND'' nm then ''nand''
      else if sublist ''NOR'' nm then ''nor''
      else if rl = Destination \<and> sublist ''PO'' nm then ''primary_output''
      else ''unknown'')"

text \<open>The two chains of the code, in terms of substrings.\<close>

definition source_category :: "string \<Rightarrow> string" where
  "source_category nm =
     (if sublist ''NET'' nm then ''net''
      else if sublist ''FF'' nm \<or> sublist ''FLOP'' nm then ''flop''
      else if sublist ''PI'' nm then ''primary_input''
      else ''unknown'')"

definition destination_category :: "string \<Rightarrow> string" where
  "destination_category nm =
     (if sublist ''NET'' nm then ''net''
      else if sublist ''INV'' nm then ''inverter''
      else if sublist ''BUF'' nm then ''buffer''
      else if sublist ''NAND'' nm then ''nand''
      else if sublist ''NOR'' nm then ''nor''
      else if sublist ''FF'' nm \<or> sublist ''FLOP'' nm then ''flop''
      else if sublist ''PO'' nm then ''primary_output''
      else ''unknown'')"

text \<open>
  The state and the edge a new parser comes to on the stage line
  \<open>P1.1 INV_FF NET7 0.5\<close>.
\<close>

definition category_state :: parser_state where
  "category_state =
     \<lparr>nodeCache = [''NET7'' \<mapsto> 0, ''INV_FF'' \<mapsto> 1],
      node_heap =
        (\<lambda>r. \<lparr>name = [], type = [], capacitance = 0, slew = 0\<rparr>)
        (0 := \<lparr>name = ''NET7'', type = ''net'', capacitance = 0, slew = 0\<rparr>,
         1 := \<lparr>name = ''INV_FF'', type = ''inverter'', capacitance = 0, slew = 0\<rparr>),
      next_ref = 2\<rparr>"

definition category_edge :: TimingEdge where
  "category_edge =
     \<lparr>from = Some 0, to = Some 1, delay = 0.5, netDelay = 0.5, cellDelay = 0\<rparr>"

section \<open>Properties\<close>

subsection \<open>Library calls\<close>

lemma str_find_Some0: "str_find s p = Some 0 \<longleftrightarrow> prefix p s"
proof (cases s)
  case Nil
  then show ?thesis by auto
next
  case (Cons c cs)
  have "take (length p) s = p \<longleftrightarrow> prefix p s"
    by (metis append_eq_conv_conj prefix_def take_is_prefix)
  with Cons show ?thesis by auto
qed

lemma str_find_None: "str_find s p = None \<longleftrightarrow> \<not> sublist p s"
proof (induction s)
  case Nil
  then show ?case by auto
next
  case (Cons c cs)
  have "take (length p) (c # cs) = p \<longleftrightarrow> prefix p (c # cs)"
    by (metis append_eq_conv_conj prefix_def take_is_prefix)
  with Cons show ?case
    by (cases p) (auto simp: sublist_Cons_right)
qed

lemma str_find_contains: "str_find s p \<noteq> None \<longleftrightarrow> sublist p s"
  by (simp add: str_find_None)

subsection \<open>The worst stage\<close>

lemma getWorstStage_loop_none:
  "\<forall>e. Some e \<in> set es \<longrightarrow> delay e \<le> m \<Longrightarrow> getWorstStage_loop es m w = (m, w)"
  by (induction es m w rule: getWorstStage_loop.induct) auto

lemma set_nonnull: "set (nonnull es) = {e. Some e \<in> set es}"
  by (induction es) (auto simp: nonnull_def split: option.splits)

lemma nonnull_simps [simp]:
  "nonnull [] = []" "nonnull (None # es) = nonnull es" "nonnull (Some e # es) = e # nonnull es"
  by (simp_all add: nonnull_def)

lemma getWorstStage_loop_some:
  "\<exists>e. Some e \<in> set es \<and> m < delay e \<Longrightarrow>
   getWorstStage_loop es m w =
     (Max (set (map delay (nonnull es))),
      find (\<lambda>e. delay e = Max (set (map delay (nonnull es)))) (nonnull es))"
proof (induction es m w rule: getWorstStage_loop.induct)
  case (1 maxDelay worstEdge)
  then show ?case by simp
next
  case (2 es maxDelay worstEdge)
  then show ?case by simp
next
  case (3 e es maxDelay worstEdge)
  let ?M = "Max (set (map delay (nonnull es)))"
  show ?case
  proof (cases "\<exists>e'. Some e' \<in> set es \<and> max maxDelay (delay e) < delay e'")
    case True
    then obtain e' where e': "Some e' \<in> set es" "max maxDelay (delay e) < delay e'" by blast
    then have ne: "set (map delay (nonnull es)) \<noteq> {}" by (auto simp: set_nonnull)
    have "delay e' \<in> set (map delay (nonnull es))" using e' by (auto simp: set_nonnull)
    then have "delay e' \<le> ?M" by (intro Max_ge) auto
    with e' have gt: "delay e < ?M" "maxDelay < ?M" by auto
    have M: "Max (set (map delay (nonnull (Some e # es)))) = ?M"
      using ne gt by (simp add: max_def)
    have "getWorstStage_loop (Some e # es) maxDelay worstEdge = (?M, find (\<lambda>x. delay x = ?M) (nonnull es))"
    proof (cases "maxDelay < delay e")
      case True
      have "\<exists>ea. Some ea \<in> set es \<and> delay e < delay ea" using e' by auto
      from "3.IH"(1)[OF True this] True show ?thesis by simp
    next
      case False
      have "\<exists>ea. Some ea \<in> set es \<and> maxDelay < delay ea" using e' by auto
      from "3.IH"(2)[OF False this] False show ?thesis by simp
    qed
    with M gt show ?thesis by auto
  next
    case False
    then have le: "\<forall>e'. Some e' \<in> set es \<longrightarrow> delay e' \<le> max maxDelay (delay e)" by (auto simp: not_less)
    from "3.prems" le have big: "maxDelay < delay e" by (auto simp: max_def split: if_splits)
    then have le': "\<forall>e'. Some e' \<in> set es \<longrightarrow> delay e' \<le> delay e" using le by (auto simp: max_def)
    have "\<forall>x \<in> set (map delay (nonnull es)). x \<le> delay e"
      using le' by (auto simp: set_nonnull)
    then have M: "Max (set (map delay (nonnull (Some e # es)))) = delay e"
      by (auto intro!: Max_eqI)
    have "getWorstStage_loop (Some e # es) maxDelay worstEdge = (delay e, Some e)"
      using big le' by (simp add: getWorstStage_loop_none)
    with M show ?thesis by simp
  qed
qed

lemma getWorstStage_positive:
  assumes "\<exists>e. Some e \<in> set (edges p) \<and> 0 < delay e"
  shows "getWorstStage p = spec_worst_stage p"
proof -
  from assms obtain e where "Some e \<in> set (edges p)" by blast
  then have "e \<in> set (nonnull (edges p))" by (simp add: set_nonnull)
  then have "edges p \<noteq> []" "present_edges p \<noteq> []"
    by (auto simp: present_edges_def)
  then show ?thesis
    using getWorstStage_loop_some[OF assms, of None]
    by (simp add: getWorstStage_def spec_worst_stage_def present_edges_def)
qed

lemma getWorstStage_no_positive:
  assumes "\<forall>e. Some e \<in> set (edges p) \<longrightarrow> delay e \<le> 0"
  shows "getWorstStage p = (0, None)"
  using getWorstStage_loop_none[OF assms, of None] by (simp add: getWorstStage_def)

subsection \<open>The suggestion for the worst edge\<close>

lemma ctor_worst:
  "getWorstStage p = (d, eo) \<Longrightarrow>
   TimingPathAnalysis_ctor (Some p) =
     \<lparr>path = Some p, worstStageDelay = d, worstStage = eo,
      optimizationSuggestion =
        (if eo = None then ''Insufficient path data for optimization suggestions'' else [])\<rparr>"
  by (simp add: TimingPathAnalysis_ctor_def)

text \<open>
  C2, as amended. For every path for which \<open>getWorstStage\<close> finds a worst edge (some
  edge has a positive delay) whose source and destination pointers are both set, the
  suggestion of \<open>analyzePath\<close> is: the pipeline-insertion text naming source and
  destination when \<open>netDelay > cellDelay\<close> and \<open>netDelay > 0.5 * worstStageDelay\<close>;
  else, when \<open>cellDelay > netDelay\<close> and \<open>cellDelay > 0.5 * worstStageDelay\<close>, the generic
  faster-cell-library text if the source node's type is net, and otherwise the
  replacement text with \<open>_HF\<close> for a source name containing INV, else \<open>_X4\<close> for BUF,
  else \<open>_HS\<close> for NAND or NOR, else "a faster variant of" the name; and the
  fan-out-balancing text naming the source in all remaining cases.
\<close>

theorem analyzePath_classification:
  assumes "getWorstStage p = (d, Some e)" and "from e \<noteq> None" and "to e \<noteq> None"
  shows "optimizationSuggestion (analyzePath h p) = spec_suggestion h e d"
proof -
  from assms obtain f t where ft: "from e = Some f" "to e = Some t" by auto
  show ?thesis
    unfolding analyzePath_def ctor_worst[OF assms(1)] Let_def
    by (simp add: ft spec_suggestion_def suggestPipelineInsertion_def Let_def
        suggestCellReplacement_def suggestFanoutOptimization_def str_find_contains
        del: not_None_eq)
qed

text \<open>The scenarios B, C and D of the specification, through the theorem.\<close>

theorem analyzePath_classification_witness:
  "optimizationSuggestion (analyzePath example_heap
      (example_path [Some (example_edge 0 1 0.5 0 0.5), Some (example_edge 2 1 2.5 2 0.5)])) =
     ''insert pipeline register between CELL2 '' @ arrow @ '' NET1'' \<and>
   optimizationSuggestion (analyzePath example_heap
      (example_path [Some (example_edge 0 1 2 0.5 1.5), Some (example_edge 2 1 1 1 0)])) =
     ''replace INV1 with INV1_HF'' \<and>
   optimizationSuggestion (analyzePath example_heap
      (example_path [Some (example_edge 2 1 2 1 1), Some (example_edge 0 1 2 1 1)])) =
     ''balance fan-out after CELL2''"
proof -
  let ?b = "example_edge 2 1 2.5 2 0.5"
  let ?c = "example_edge 0 1 2 0.5 1.5"
  let ?d = "example_edge 2 1 2 1 1"
  have b: "getWorstStage (example_path [Some (example_edge 0 1 0.5 0 0.5), Some ?b]) = (2.5, Some ?b)"
    by (simp add: getWorstStage_def example_path_def example_edge_def)
  have c: "getWorstStage (example_path [Some ?c, Some (example_edge 2 1 1 1 0)]) = (2, Some ?c)"
    by (simp add: getWorstStage_def example_path_def example_edge_def)
  have d: "getWorstStage (example_path [Some ?d, Some (example_edge 0 1 2 1 1)]) = (2, Some ?d)"
    by (simp add: getWorstStage_def example_path_def example_edge_def)
  have sb: "spec_suggestion example_heap ?b 2.5 = ''insert pipeline register between CELL2 '' @ arrow @ '' NET1''"
    by (simp add: spec_suggestion_def example_heap_def example_edge_def)
  have sc: "spec_suggestion example_heap ?c 2 = ''replace INV1 with INV1_HF''"
    by (simp add: spec_suggestion_def example_heap_def example_edge_def sublist_Cons_right)
  have sd: "spec_suggestion example_heap ?d 2 = ''balance fan-out after CELL2''"
    by (simp add: spec_suggestion_def example_heap_def example_edge_def)
  have f: "from ?b \<noteq> None" "to ?b \<noteq> None" "from ?c \<noteq> None" "to ?c \<noteq> None"
    "from ?d \<noteq> None" "to ?d \<noteq> None"
    by (simp_all add: example_edge_def)
  show ?thesis
    using analyzePath_classification[OF b f(1,2), of example_heap, unfolded sb]
      analyzePath_classification[OF c f(3,4), of example_heap, unfolded sc]
      analyzePath_classification[OF d f(5,6), of example_heap, unfolded sd]
    by blast
qed

text \<open>
  C2 as stated speaks of every path with at least one edge. A path whose only edge has
  delay 0 has no worst edge, and its suggestion is the insufficient-data text, not the
  fan-out text the classification would give for that edge.
\<close>

theorem analyzePath_classification_counterexample:
  "edges (example_path [Some zero_edge]) \<noteq> [] \<and>
   optimizationSuggestion (analyzePath example_heap (example_path [Some zero_edge])) \<noteq>
     spec_suggestion example_heap zero_edge (delay zero_edge)"
proof -
  have g: "getWorstStage (example_path [Some zero_edge]) = (0, None)"
    by (simp add: getWorstStage_def example_path_def zero_edge_def example_edge_def)
  have a: "optimizationSuggestion (analyzePath example_heap (example_path [Some zero_edge])) =
      ''Insufficient path data for optimization suggestions.''"
    by (simp add: analyzePath_def TimingPathAnalysis_ctor_def g)
  have s: "spec_suggestion example_heap zero_edge (delay zero_edge) = ''balance fan-out after INV1''"
    by (simp add: spec_suggestion_def zero_edge_def example_edge_def example_heap_def)
  show ?thesis
    unfolding a s by (simp add: example_path_def)
qed

lemma spec_worst_stage_first:
  assumes "present_edges p \<noteq> []"
  shows "\<exists>i e. spec_worst_stage p = (delay e, Some e) \<and>
           i < length (present_edges p) \<and> present_edges p ! i = e \<and>
           (\<forall>j < length (present_edges p). delay (present_edges p ! j) \<le> delay e) \<and>
           (\<forall>j < i. delay (present_edges p ! j) < delay e)"
proof -
  let ?es = "present_edges p"
  let ?M = "Max (set (map delay ?es))"
  have fin: "finite (set (map delay ?es))" and ne: "set (map delay ?es) \<noteq> {}"
    using assms by auto
  from Max_in[OF fin ne] obtain e0 where "e0 \<in> set ?es" "delay e0 = ?M" by auto
  then have "find (\<lambda>e. delay e = ?M) ?es \<noteq> None" by (auto simp: find_None_iff)
  then obtain e where fe: "find (\<lambda>e. delay e = ?M) ?es = Some e" by auto
  then obtain i where i: "i < length ?es" "delay (?es ! i) = ?M" "e = ?es ! i"
    "\<forall>j < i. delay (?es ! j) \<noteq> ?M"
    by (auto simp: find_Some_iff)
  have le: "\<forall>j < length ?es. delay (?es ! j) \<le> ?M"
    using fin by (auto intro!: Max_ge)
  have "\<forall>j < i. delay (?es ! j) < ?M"
  proof (intro allI impI)
    fix j assume "j < i"
    with i le have "delay (?es ! j) \<le> ?M" "delay (?es ! j) \<noteq> ?M" by auto
    then show "delay (?es ! j) < ?M" by simp
  qed
  with i le fe assms show ?thesis
    by (auto simp: spec_worst_stage_def)
qed

text \<open>
  C3, as amended. For every path in which some edge has a positive delay, \<open>getWorstStage\<close>
  returns the maximum delay and the first edge, in path order, that attains it (the scan
  compares with strict \<open>>\<close>); for every path in which no edge has a positive delay, in
  particular a path with no edges, it returns 0.0 and no edge.
\<close>

theorem getWorstStage_first_maximum:
  "((\<exists>e. Some e \<in> set (edges p) \<and> 0 < delay e) \<longrightarrow> getWorstStage p = spec_worst_stage p) \<and>
   ((\<forall>e. Some e \<in> set (edges p) \<longrightarrow> delay e \<le> 0) \<longrightarrow> getWorstStage p = (0, None))"
  using getWorstStage_positive getWorstStage_no_positive by blast

text \<open>A path whose second and third edge tie at the maximum 3, and the empty path.\<close>

theorem getWorstStage_first_maximum_witness:
  "getWorstStage tie_path = spec_worst_stage tie_path \<and>
   spec_worst_stage tie_path = (3, Some (example_edge 1 2 3 3 0)) \<and>
   getWorstStage (example_path []) = (0, None)"
proof -
  have "Some (example_edge 1 2 3 3 0) \<in> set (edges tie_path) \<and> 0 < delay (example_edge 1 2 3 3 0)"
    by (simp add: tie_path_def example_path_def example_edge_def)
  then have "\<exists>e. Some e \<in> set (edges tie_path) \<and> 0 < delay e" by blast
  with getWorstStage_first_maximum[of tie_path]
  have a: "getWorstStage tie_path = spec_worst_stage tie_path" by blast
  have "getWorstStage tie_path = (3, Some (example_edge 1 2 3 3 0))"
    by (simp add: getWorstStage_def tie_path_def example_path_def example_edge_def)
  with a have b: "spec_worst_stage tie_path = (3, Some (example_edge 1 2 3 3 0))" by simp
  have "\<forall>e. Some e \<in> set (edges (example_path [])) \<longrightarrow> delay e \<le> 0"
    by (simp add: example_path_def)
  with getWorstStage_first_maximum[of "example_path []"]
  have c: "getWorstStage (example_path []) = (0, None)" by blast
  from a b c show ?thesis by blast
qed

text \<open>
  C3 as stated speaks of every path. For a path whose only edge has delay 0 the first edge
  attaining the maximum is that edge, and \<open>getWorstStage\<close> returns no edge.
\<close>

theorem getWorstStage_first_maximum_counterexample:
  "getWorstStage (example_path [Some zero_edge]) = (0, None) \<and>
   spec_worst_stage (example_path [Some zero_edge]) = (0, Some zero_edge) \<and>
   getWorstStage (example_path [Some zero_edge]) \<noteq> spec_worst_stage (example_path [Some zero_edge])"
  by (simp add: getWorstStage_def spec_worst_stage_def present_edges_def example_path_def
      zero_edge_def example_edge_def)

text \<open>
  C10. For every path whose edge list is not empty and whose edges all have delay 0.0,
  \<open>getWorstStage\<close> returns delay 0.0 and no worst edge, and \<open>analyzePath\<close> produces the
  fixed insufficient-data suggestion: its result is the one for the same path without
  edges, up to the path the analysis points to.
\<close>

theorem zero_delays_insufficient:
  assumes "edges p \<noteq> []" and "\<forall>eo \<in> set (edges p). \<exists>e. eo = Some e \<and> delay e = 0"
  shows "getWorstStage p = (0, None) \<and>
         analyzePath h p =
           \<lparr>path = Some p, worstStageDelay = 0, worstStage = None,
            optimizationSuggestion = ''Insufficient path data for optimization suggestions.''\<rparr> \<and>
         analyzePath h (p\<lparr>edges := []\<rparr>) = (analyzePath h p)\<lparr>path := Some (p\<lparr>edges := []\<rparr>)\<rparr>"
proof -
  from assms(2) have "\<forall>e. Some e \<in> set (edges p) \<longrightarrow> delay e \<le> 0" by fastforce
  then have g: "getWorstStage p = (0, None)" by (rule getWorstStage_no_positive)
  have g0: "getWorstStage (p\<lparr>edges := []\<rparr>) = (0, None)" by (simp add: getWorstStage_def)
  show ?thesis
    by (simp add: g analyzePath_def ctor_worst[OF g] ctor_worst[OF g0])
qed

text \<open>A path of two edges of delay 0, and the path with no edges.\<close>

theorem zero_delays_insufficient_witness:
  "getWorstStage (example_path [Some zero_edge, Some zero_edge]) = (0, None) \<and>
   optimizationSuggestion (analyzePath example_heap (example_path [Some zero_edge, Some zero_edge])) =
     ''Insufficient path data for optimization suggestions.'' \<and>
   optimizationSuggestion (analyzePath example_heap (example_path [])) =
     ''Insufficient path data for optimization suggestions.''"
proof -
  have 1: "edges (example_path [Some zero_edge, Some zero_edge]) \<noteq> []"
    by (simp add: example_path_def)
  have 2: "\<forall>eo \<in> set (edges (example_path [Some zero_edge, Some zero_edge])).
             \<exists>e. eo = Some e \<and> delay e = 0"
    by (simp add: example_path_def zero_edge_def example_edge_def)
  have 3: "(example_path [Some zero_edge, Some zero_edge])\<lparr>edges := []\<rparr> = example_path []"
    by (simp add: example_path_def)
  show ?thesis
    using zero_delays_insufficient[OF 1 2, of example_heap] by (simp add: 3)
qed

subsection \<open>Ranking\<close>

text \<open>A stable sort meets the contract of \<open>std::sort\<close>: the standard allows it.\<close>

lemma stable_sort_contract: "std_sort_contract (\<lambda>cmp. sort_key (\<lambda>p. - totalDelay p)) xs"
proof -
  have "sorted (map (\<lambda>p. - totalDelay p) (sort_key (\<lambda>p. - totalDelay p) xs))" by simp
  then have "sorted_wrt (\<lambda>a b. \<not> delay_desc b a) (sort_key (\<lambda>p. - totalDelay p) xs)"
    by (simp add: sorted_wrt_map delay_desc_def not_less)
  then show ?thesis by (simp add: std_sort_contract_def)
qed

text \<open>
  What \<open>std_sort\<close> makes of the three paths of the analyzer test, and of the seventeen
  paths of equal delay: the median step puts the path in the middle, I, first, and the
  partition swaps B with Q, C with P, and so on up to I with J.
\<close>

lemma std_sort_test_paths:
  "std_sort delay_desc test_paths = [test_paths ! 2, test_paths ! 0, test_paths ! 1]"
  by code_simp

lemma std_sort_tied_paths:
  "concat (map path_id (std_sort delay_desc tied_paths)) = ''IQPONMLKJAHGFEDCB''"
  by code_simp

lemma int_of_size_small: "n < 2 ^ 31 \<Longrightarrow> int_of_size n = int n"
  by (simp add: int_of_size_def)

lemma map_nth_take: "k \<le> length xs \<Longrightarrow> map (\<lambda>i. f (xs ! i)) [0 ..< k] = map f (take k xs)"
  by (rule nth_equalityI) auto

lemma findCriticalPaths_take:
  assumes "std_sort_contract srt paths" and "length paths < 2 ^ 31"
  shows "findCriticalPaths srt h paths K =
           map (analyzePath h) (take (nat K) (srt delay_desc paths))"
proof -
  let ?s = "srt delay_desc paths"
  have "mset ?s = mset paths" using assms(1) by (simp add: std_sort_contract_def)
  then have len: "length ?s = length paths" by (rule mset_eq_length)
  then have "int_of_size (length ?s) = int (length paths)"
    using assms(2) by (simp add: int_of_size_small)
  moreover have "take (nat (min K (int (length paths)))) ?s = take (nat K) ?s"
    using len by (cases "K \<le> int (length paths)") (auto simp: min_def)
  moreover have "nat (min K (int (length paths))) \<le> length ?s" using len by auto
  ultimately show ?thesis
    by (simp add: findCriticalPaths_def Let_def map_nth_take)
qed

lemma desc_sorted_delays:
  assumes "mset s = mset paths" and "sorted_wrt (\<lambda>a b. \<not> delay_desc b a) s"
  shows "map totalDelay s = rev (sort (map totalDelay paths))"
proof -
  have "sorted_wrt (\<lambda>a b. totalDelay b \<le> totalDelay a) s"
    using assms(2) by (simp add: delay_desc_def not_less)
  then have "sorted (rev (map totalDelay s))"
    by (simp add: sorted_wrt_rev sorted_wrt_map)
  moreover have "mset (rev (map totalDelay s)) = mset (map totalDelay paths)"
    using assms(1) by (metis mset_map mset_rev)
  ultimately have "sort (map totalDelay paths) = rev (map totalDelay s)"
    by (rule properties_for_sort[rotated])
  then show ?thesis by simp
qed

lemma distinct_keys_same_order:
  assumes "mset s = mset paths" and "sorted_wrt (\<lambda>a b. \<not> delay_desc b a) s"
    and "distinct (map totalDelay paths)"
  shows "s = sort_key (\<lambda>p. - totalDelay p) paths"
proof -
  let ?t = "sort_key (\<lambda>p. - totalDelay p) paths"
  have "sorted (map (\<lambda>p. - totalDelay p) ?t)" by simp
  then have "sorted_wrt (\<lambda>a b. \<not> delay_desc b a) ?t"
    by (simp add: sorted_wrt_map delay_desc_def not_less)
  with desc_sorted_delays[of ?t paths] have "map totalDelay ?t = rev (sort (map totalDelay paths))"
    by simp
  with desc_sorted_delays[OF assms(1,2)] have eq: "map totalDelay s = map totalDelay ?t" by simp
  have "inj_on totalDelay (set paths)" using assms(3) by (simp add: distinct_map)
  moreover have "set s = set paths" using assms(1) by (rule mset_eq_setD)
  moreover have "set ?t = set paths" by simp
  ultimately have "inj_on totalDelay (set s \<union> set ?t)" by simp
  with eq show ?thesis by (simp add: inj_on_map_eq_map)
qed

text \<open>
  C1, as amended. For every list of fewer than \<open>2^31\<close> paths and every integer \<open>K\<close>, when
  the call of \<open>std::sort\<close> does what the standard guarantees, \<open>findCriticalPaths\<close> returns the
  analyses of a sequence of input paths in non-increasing order of \<open>totalDelay\<close>, whose
  delays are the \<open>K\<close> largest of the input; its length is \<open>min(K, |paths|)\<close> when \<open>K > 0\<close>
  and 0 when \<open>K \<le> 0\<close>. When the delays of the input are pairwise distinct, the sequence
  is the first \<open>K\<close> paths of the stable descending sort. The order among paths of equal
  \<open>totalDelay\<close> is not fixed.
\<close>

theorem findCriticalPaths_ranking:
  assumes "std_sort_contract srt paths" and "length paths < 2 ^ 31"
  shows "\<exists>ranked.
           findCriticalPaths srt h paths K = map (analyzePath h) ranked \<and>
           length ranked = (if K \<le> 0 then 0 else min (nat K) (length paths)) \<and>
           mset ranked \<subseteq># mset paths \<and>
           sorted_wrt (\<lambda>a b. totalDelay a \<ge> totalDelay b) ranked \<and>
           map totalDelay ranked = take (nat K) (rev (sort (map totalDelay paths))) \<and>
           (distinct (map totalDelay paths) \<longrightarrow> ranked = spec_ranking paths K)"
proof -
  let ?s = "srt delay_desc paths"
  let ?r = "take (nat K) ?s"
  have ms: "mset ?s = mset paths" and so: "sorted_wrt (\<lambda>a b. \<not> delay_desc b a) ?s"
    using assms(1) by (simp_all add: std_sort_contract_def)
  have len: "length ?s = length paths" using ms by (rule mset_eq_length)
  have 1: "findCriticalPaths srt h paths K = map (analyzePath h) ?r"
    using assms by (rule findCriticalPaths_take)
  have 2: "length ?r = (if K \<le> 0 then 0 else min (nat K) (length paths))"
    using len by (auto simp: min_def)
  have "mset ?r \<subseteq># mset ?s"
    by (metis append_take_drop_id mset_append mset_subset_eq_add_left)
  then have 3: "mset ?r \<subseteq># mset paths" using ms by simp
  have "sorted_wrt (\<lambda>a b. totalDelay a \<ge> totalDelay b) ?s"
    using so by (simp add: delay_desc_def not_less)
  then have 4: "sorted_wrt (\<lambda>a b. totalDelay a \<ge> totalDelay b) ?r"
    by (rule sorted_wrt_take)
  have 5: "map totalDelay ?r = take (nat K) (rev (sort (map totalDelay paths)))"
    unfolding desc_sorted_delays[OF ms so, symmetric] by (simp add: take_map)
  have 6: "distinct (map totalDelay paths) \<longrightarrow> ?r = spec_ranking paths K"
    using distinct_keys_same_order[OF ms so] by (simp add: spec_ranking_def)
  from 1 2 3 4 5 6 show ?thesis by blast
qed

text \<open>
  Scenario E, with the library's \<open>std::sort\<close>: delays 5, 4 and 6 with \<open>K = 2\<close> give the
  paths of delay 6 and 5.
\<close>

theorem findCriticalPaths_ranking_witness:
  "\<exists>ranked.
     findCriticalPaths std_sort example_heap test_paths 2 =
       map (analyzePath example_heap) ranked \<and>
     length ranked = 2 \<and>
     map totalDelay ranked = [6, 5] \<and>
     map path_id ranked = [''P3'', ''P1'']"
proof -
  have c: "std_sort_contract std_sort test_paths"
    unfolding std_sort_contract_def std_sort_test_paths
    by (simp add: test_paths_def delay_desc_def)
  have len: "length test_paths < 2 ^ 31" by (simp add: test_paths_def)
  have d: "distinct (map totalDelay test_paths)" by (simp add: test_paths_def)
  have r: "spec_ranking test_paths 2 = [test_paths ! 2, test_paths ! 0]"
    by (simp add: spec_ranking_def test_paths_def)
  from findCriticalPaths_ranking[OF c len, of example_heap 2] d
  have "findCriticalPaths std_sort example_heap test_paths 2 =
          map (analyzePath example_heap) (spec_ranking test_paths 2)"
    by auto
  then show ?thesis
    unfolding r by (intro exI[of _ "[test_paths ! 2, test_paths ! 0]"]) (simp add: test_paths_def)
qed

text \<open>
  C1 as stated has paths of equal \<open>totalDelay\<close> keep their input order. The program sorts
  with \<open>std::sort\<close>, which does not: of the seventeen paths A to Q of delay 5, the program
  ranks I, Q and P first, where the stable sort of the claim has A, B and C.
\<close>

theorem findCriticalPaths_ranking_counterexample:
  "map (map_option path_id \<circ> path) (findCriticalPaths std_sort example_heap tied_paths 3) =
     [Some ''I'', Some ''Q'', Some ''P''] \<and>
   map path_id (spec_ranking tied_paths 3) = [''A'', ''B'', ''C''] \<and>
   map path (findCriticalPaths std_sort example_heap tied_paths 3) \<noteq>
     map Some (spec_ranking tied_paths 3)"
  by code_simp

subsection \<open>Invariants of a parse session\<close>

lemma extends_refl: "extends s s"
  by (simp add: extends_def)

lemma extends_trans: "extends s s' \<Longrightarrow> extends s' s'' \<Longrightarrow> extends s s''"
  by (auto simp: extends_def)

lemma cache_inv_new_parser: "cache_inv new_parser"
  by (simp add: cache_inv_def new_parser_def)

lemma cache_new_props:
  assumes "cache_inv s" and "nodeCache s nm = None"
    and "s' = (snd (make_shared_node s nm ty))\<lparr>nodeCache := (nodeCache s)(nm \<mapsto> next_ref s)\<rparr>"
  shows "cache_inv s'" and "extends s s'" and "nodeCache s' nm = Some (next_ref s)"
    and "node_heap s' (next_ref s) = \<lparr>name = nm, type = ty, capacitance = 0, slew = 0\<rparr>"
proof -
  have nr: "next_ref s' = Suc (next_ref s)"
    and hp: "node_heap s' = (node_heap s)(next_ref s := \<lparr>name = nm, type = ty, capacitance = 0, slew = 0\<rparr>)"
    and nc: "nodeCache s' = (nodeCache s)(nm \<mapsto> next_ref s)"
    using assms(3) by (simp_all add: make_shared_node_def)
  show "cache_inv s'"
    unfolding cache_inv_def
  proof (intro allI impI)
    fix n r assume c: "nodeCache s' n = Some r"
    show "r < next_ref s' \<and> name (node_heap s' r) = n"
    proof (cases "n = nm")
      case True
      with c nc have "r = next_ref s" by simp
      with True nr hp show ?thesis by simp
    next
      case False
      with c nc have "nodeCache s n = Some r" by simp
      with assms(1) have "r < next_ref s" "name (node_heap s r) = n"
        by (auto simp: cache_inv_def)
      with nr hp show ?thesis by simp
    qed
  qed
  show "extends s s'"
    using nr hp nc assms(2) by (auto simp: extends_def)
  show "nodeCache s' nm = Some (next_ref s)" using nc by simp
  show "node_heap s' (next_ref s) = \<lparr>name = nm, type = ty, capacitance = 0, slew = 0\<rparr>"
    using hp by simp
qed

lemma resolveFrom_hit: "nodeCache s nm = Some r0 \<Longrightarrow> resolveFrom s nm = (r0, s)"
  by (simp add: resolveFrom_def)

lemma resolveTo_hit: "nodeCache s nm = Some r0 \<Longrightarrow> resolveTo s nm = (r0, s)"
  by (simp add: resolveTo_def)

lemma resolveFrom_miss:
  "nodeCache s nm = None \<Longrightarrow>
   resolveFrom s nm =
     (next_ref s,
      (snd (make_shared_node s nm (inferFromType nm)))\<lparr>nodeCache := (nodeCache s)(nm \<mapsto> next_ref s)\<rparr>)"
  by (simp add: resolveFrom_def make_shared_node_def)

lemma resolveTo_miss:
  "nodeCache s nm = None \<Longrightarrow>
   resolveTo s nm =
     (next_ref s,
      (snd (make_shared_node s nm (inferToType nm)))\<lparr>nodeCache := (nodeCache s)(nm \<mapsto> next_ref s)\<rparr>)"
  by (simp add: resolveTo_def make_shared_node_def)

lemma resolveFrom_props:
  assumes "cache_inv s" and "resolveFrom s nm = (r, s')"
  shows "cache_inv s'" and "extends s s'" and "nodeCache s' nm = Some r"
    and "name (node_heap s' r) = nm"
    and "nodeCache s nm = None \<Longrightarrow> type (node_heap s' r) = inferFromType nm"
proof -
  have "cache_inv s' \<and> extends s s' \<and> nodeCache s' nm = Some r \<and> name (node_heap s' r) = nm \<and>
        (nodeCache s nm = None \<longrightarrow> type (node_heap s' r) = inferFromType nm)"
  proof (cases "nodeCache s nm")
    case None
    from assms(2) resolveFrom_miss[OF None] cache_new_props[OF assms(1) None refl, of "inferFromType nm"]
    show ?thesis by auto
  next
    case (Some r0)
    with assms resolveFrom_hit[OF Some] show ?thesis
      by (auto simp: extends_refl cache_inv_def)
  qed
  then show "cache_inv s'" and "extends s s'" and "nodeCache s' nm = Some r"
    and "name (node_heap s' r) = nm"
    and "nodeCache s nm = None \<Longrightarrow> type (node_heap s' r) = inferFromType nm"
    by simp_all
qed

lemma resolveTo_props:
  assumes "cache_inv s" and "resolveTo s nm = (r, s')"
  shows "cache_inv s'" and "extends s s'" and "nodeCache s' nm = Some r"
    and "name (node_heap s' r) = nm"
    and "nodeCache s nm = None \<Longrightarrow> type (node_heap s' r) = inferToType nm"
proof -
  have "cache_inv s' \<and> extends s s' \<and> nodeCache s' nm = Some r \<and> name (node_heap s' r) = nm \<and>
        (nodeCache s nm = None \<longrightarrow> type (node_heap s' r) = inferToType nm)"
  proof (cases "nodeCache s nm")
    case None
    from assms(2) resolveTo_miss[OF None] cache_new_props[OF assms(1) None refl, of "inferToType nm"]
    show ?thesis by auto
  next
    case (Some r0)
    with assms resolveTo_hit[OF Some] show ?thesis
      by (auto simp: extends_refl cache_inv_def)
  qed
  then show "cache_inv s'" and "extends s s'" and "nodeCache s' nm = Some r"
    and "name (node_heap s' r) = nm"
    and "nodeCache s nm = None \<Longrightarrow> type (node_heap s' r) = inferToType nm"
    by simp_all
qed

lemma edge_inv_extends:
  assumes "cache_inv s" and "extends s s'" and "edge_split s e" and "edge_cached s e"
  shows "edge_split s' e \<and> edge_cached s' e"
proof -
  from assms(4) obtain f t where ft: "from e = Some f" "to e = Some t"
    "nodeCache s (name (node_heap s f)) = Some f" "nodeCache s (name (node_heap s t)) = Some t"
    by (auto simp: edge_cached_def)
  with assms(1) have lt: "f < next_ref s" "t < next_ref s" by (auto simp: cache_inv_def)
  with assms(2) have same: "node_heap s' f = node_heap s f" "node_heap s' t = node_heap s t"
    by (auto simp: extends_def)
  from ft assms(2) have c': "nodeCache s' (name (node_heap s f)) = Some f"
    "nodeCache s' (name (node_heap s t)) = Some t"
    by (auto simp: extends_def)
  have "edge_split s' e \<longleftrightarrow> edge_split s e"
    unfolding edge_split_def ft(1) option.sel same(1) by (rule refl)
  with assms(3) have "edge_split s' e" by blast
  moreover have "edge_cached s' e"
    unfolding edge_cached_def using ft(1,2) c' same by (intro exI[of _ f] exI[of _ t]) simp
  ultimately show ?thesis ..
qed

lemma path_inv_extends:
  assumes "cache_inv s" and "extends s s'" and "path_inv s p"
  shows "path_inv s' p"
  unfolding path_inv_def
proof
  fix eo assume "eo \<in> set (edges p)"
  with assms(3) obtain e where e: "eo = Some e" "edge_split s e" "edge_cached s e"
    unfolding path_inv_def by blast
  from edge_inv_extends[OF assms(1,2) e(2,3)] e(1)
  show "\<exists>e. eo = Some e \<and> edge_split s' e \<and> edge_cached s' e" by blast
qed

lemma rmatch_length: "rmatch p s = Some ms \<Longrightarrow> length ms = length p"
  by (induction p s arbitrary: ms rule: rmatch.induct)
     (auto split: if_splits option.splits list.splits)

lemma regex_search_length: "regex_search p s = Some ms \<Longrightarrow> length ms = length p"
  by (induction p s rule: regex_search.induct)
     (auto split: option.splits dest: rmatch_length)

lemma list9:
  "length ms = 9 \<Longrightarrow> \<exists>a b c d e f g h i. ms = [a, b, c, d, e, f, g, h, i]"
  by (simp add: eval_nat_numeral length_Suc_conv) blast

lemma parsePathStage_match:
  assumes "regex_search stagePattern line = Some [m0, m1, m2, w1, toName, w2, fromName, w3, m4]"
  shows "parsePathStage s line =
          (case stod m4 of
             Inl e \<Rightarrow> (s, Inl e)
           | Inr d \<Rightarrow>
               (let (fromNode, s1) = resolveFrom s fromName;
                    (toNode, s2) = resolveTo s1 toName;
                    edge = \<lparr>from = Some fromNode, to = Some toNode, delay = d,
                            netDelay = 0, cellDelay = 0\<rparr>
                in (s2, Inr (Some (if type (node_heap s2 fromNode) = ''net''
                                   then edge\<lparr>netDelay := d\<rparr>
                                   else edge\<lparr>cellDelay := d\<rparr>)))))"
  unfolding parsePathStage_def assms by (simp only: option.case list.case)

text \<open>What \<open>parsePathStage\<close> does when the line matches and the delay converts.\<close>

lemma parsePathStage_cases:
  obtains
    (nomatch) "parsePathStage s line = (s, Inr None)"
  | (throws) err where "parsePathStage s line = (s, Inl err)"
  | (edge) m0 m1 m2 w1 toName w2 fromName w3 m4 d fromNode s1 toNode s2 where
      "regex_search stagePattern line = Some [m0, m1, m2, w1, toName, w2, fromName, w3, m4]"
      "stod m4 = Inr d"
      "resolveFrom s fromName = (fromNode, s1)"
      "resolveTo s1 toName = (toNode, s2)"
      "parsePathStage s line =
         (s2, Inr (Some \<lparr>from = Some fromNode, to = Some toNode, delay = d,
                          netDelay = (if type (node_heap s2 fromNode) = ''net'' then d else 0),
                          cellDelay = (if type (node_heap s2 fromNode) = ''net'' then 0 else d)\<rparr>))"
proof (cases "regex_search stagePattern line")
  case None
  then have "parsePathStage s line = (s, Inr None)" by (simp add: parsePathStage_def)
  then show ?thesis by (rule nomatch)
next
  case (Some ms)
  from regex_search_length[OF Some] have "length ms = 9" by (simp add: stagePattern_def)
  from list9[OF this] have True: "\<exists>m0 m1 m2 w1 toName w2 fromName w3 m4.
      ms = [m0, m1, m2, w1, toName, w2, fromName, w3, m4]" .
  show ?thesis
  proof -
    from True obtain m0 m1 m2 w1 toName w2 fromName w3 m4
      where ms: "ms = [m0, m1, m2, w1, toName, w2, fromName, w3, m4]" by blast
    show ?thesis
    proof (cases "stod m4")
      case (Inl err)
      have "parsePathStage s line = (s, Inl err)"
        unfolding parsePathStage_match[OF Some[unfolded ms]] by (simp add: Inl)
      then show ?thesis by (rule throws)
    next
      case (Inr d)
      obtain fromNode s1 where rf: "resolveFrom s fromName = (fromNode, s1)"
        by (cases "resolveFrom s fromName")
      obtain toNode s2 where rt: "resolveTo s1 toName = (toNode, s2)"
        by (cases "resolveTo s1 toName")
      have "parsePathStage s line =
         (s2, Inr (Some \<lparr>from = Some fromNode, to = Some toNode, delay = d,
                          netDelay = (if type (node_heap s2 fromNode) = ''net'' then d else 0),
                          cellDelay = (if type (node_heap s2 fromNode) = ''net'' then 0 else d)\<rparr>))"
        unfolding parsePathStage_match[OF Some[unfolded ms]] by (simp add: Inr rf rt)
      with Some ms Inr rf rt show ?thesis
        by (intro edge[of m0 m1 m2 w1 toName w2 fromName w3 m4 d fromNode s1 toNode s2]) simp_all
    qed
  qed
qed

lemma parsePathStage_inv:
  assumes "cache_inv s" and "parsePathStage s line = (s', res)"
  shows "cache_inv s' \<and> extends s s' \<and>
         (\<forall>e. res = Inr (Some e) \<longrightarrow> edge_split s' e \<and> edge_cached s' e)"
proof (cases rule: parsePathStage_cases[of s line])
  case nomatch
  with assms show ?thesis by (auto simp: extends_refl)
next
  case (throws err)
  with assms show ?thesis by (auto simp: extends_refl)
next
  case (edge m0 m1 m2 w1 toName w2 fromName w3 m4 d fromNode s1 toNode s2)
  note rf = resolveFrom_props[OF assms(1) edge(3)]
  note rt = resolveTo_props[OF rf(1) edge(4)]
  from rf(1,3) have lt: "fromNode < next_ref s1" by (auto simp: cache_inv_def)
  with rt(2) have same: "node_heap s2 fromNode = node_heap s1 fromNode"
    by (auto simp: extends_def)
  from rf(3) rt(2) have cf: "nodeCache s2 fromName = Some fromNode"
    by (auto simp: extends_def)
  let ?e = "\<lparr>from = Some fromNode, to = Some toNode, delay = d,
             netDelay = (if type (node_heap s2 fromNode) = ''net'' then d else 0),
             cellDelay = (if type (node_heap s2 fromNode) = ''net'' then 0 else d)\<rparr>"
  have sp: "edge_split s2 ?e" by (simp add: edge_split_def)
  have ca: "edge_cached s2 ?e"
    using cf rt(3,4) rf(4) same by (simp add: edge_cached_def)
  from assms(2) edge(5) have "s' = s2" "res = Inr (Some ?e)" by auto
  with sp ca rt(1) extends_trans[OF rf(2) rt(2)] show ?thesis by simp
qed

lemma stage_step_inv:
  assumes "cache_inv s" and "path_inv s p" and "stage_step s p line = (s', p')"
  shows "cache_inv s' \<and> extends s s' \<and> path_inv s' p'"
proof (cases "str_find line (path_id p @ ''.'') \<noteq> None")
  case False
  with assms show ?thesis by (simp add: stage_step_def extends_refl)
next
  case True
  obtain s1 res where ps: "parsePathStage s line = (s1, res)" by (cases "parsePathStage s line")
  from parsePathStage_inv[OF assms(1) ps]
  have inv: "cache_inv s1" "extends s s1"
    "\<forall>e. res = Inr (Some e) \<longrightarrow> edge_split s1 e \<and> edge_cached s1 e" by simp_all
  from path_inv_extends[OF assms(1) inv(2) assms(2)] have pi: "path_inv s1 p" .
  show ?thesis
  proof (cases "\<exists>e. res = Inr (Some e)")
    case False
    with True ps assms(3) have "s' = s1" "p' = p"
      by (auto simp: stage_step_def split: sum.splits option.splits)
    with inv pi show ?thesis by simp
  next
    case True
    then obtain e where e: "res = Inr (Some e)" by blast
    with \<open>str_find line (path_id p @ ''.'') \<noteq> None\<close> ps assms(3)
    have eq: "s' = s1" "p' = p\<lparr>edges := edges p @ [Some e]\<rparr>"
      by (auto simp: stage_step_def)
    from inv(3) e have "edge_split s1 e \<and> edge_cached s1 e" by blast
    with pi have "path_inv s1 (p\<lparr>edges := edges p @ [Some e]\<rparr>)"
      by (auto simp: path_inv_def)
    with inv eq show ?thesis by simp
  qed
qed

lemma parsePath_loop_stop:
  "\<not> (i < length lns \<and> \<not> block_end (lns ! i)) \<Longrightarrow> parsePath_loop lns s p i = (s, p, i)"
  by (subst parsePath_loop_unfold) auto

lemma parsePath_loop_step:
  "i < length lns \<Longrightarrow> \<not> block_end (lns ! i) \<Longrightarrow> stage_step s p (lns ! i) = (s1, p1) \<Longrightarrow>
   parsePath_loop lns s p i = parsePath_loop lns s1 p1 (i + 1)"
  by (subst parsePath_loop_unfold) simp

lemma parsePath_loop_inv:
  assumes "cache_inv s" and "path_inv s p" and "parsePath_loop lns s p i = (s', p', n)"
  shows "cache_inv s' \<and> extends s s' \<and> path_inv s' p'"
  using assms
proof (induction "length lns - i" arbitrary: i s p)
  case 0
  then have "\<not> (i < length lns \<and> \<not> block_end (lns ! i))" by simp
  from parsePath_loop_stop[OF this, of s p] "0.prems" show ?case
    by (simp add: extends_refl)
next
  case (Suc k)
  show ?case
  proof (cases "i < length lns \<and> \<not> block_end (lns ! i)")
    case False
    from parsePath_loop_stop[OF this, of s p] Suc.prems show ?thesis
      by (simp add: extends_refl)
  next
    case True
    obtain s1 p1 where st: "stage_step s p (lns ! i) = (s1, p1)"
      by (cases "stage_step s p (lns ! i)")
    from stage_step_inv[OF Suc.prems(1,2) st]
    have inv: "cache_inv s1" "extends s s1" "path_inv s1 p1" by simp_all
    from True Suc.prems(3) parsePath_loop_step[OF _ _ st]
    have "parsePath_loop lns s1 p1 (i + 1) = (s', p', n)" by simp
    moreover have "k = length lns - (i + 1)" using Suc.hyps(2) by simp
    ultimately have "cache_inv s' \<and> extends s1 s' \<and> path_inv s' p'"
      using Suc.hyps(1)[of "i + 1" s1 p1] inv by simp
    with inv(2) show ?thesis by (auto intro: extends_trans)
  qed
qed

lemma parsePath_inv:
  assumes "cache_inv s" and "parsePath s lns i = Inr (s', p', n)"
  shows "cache_inv s' \<and> extends s s' \<and> path_inv s' p'"
proof -
  from assms(2) obtain pid sp ep d where
    "parsePath_loop lns s
       \<lparr>path_id = pid, startpoint = sp, endpoint = ep, totalDelay = d, edges = []\<rparr> (i + 1) =
     (s', p', n)"
    by (auto simp: parsePath_def split: sum.splits prod.splits)
  moreover have "path_inv s \<lparr>path_id = pid, startpoint = sp, endpoint = ep, totalDelay = d, edges = []\<rparr>"
    by (simp add: path_inv_def)
  ultimately show ?thesis using parsePath_loop_inv[OF assms(1)] by blast
qed

lemma parseFile_loop_stop:
  "\<not> i < length lns \<Longrightarrow> parseFile_loop lns s paths i = (s, paths)"
  by (subst parseFile_loop.simps) simp

lemma parseFile_loop_step:
  "i < length lns \<Longrightarrow> file_step s lns i = (s1, ps, n) \<Longrightarrow>
   parseFile_loop lns s paths i = parseFile_loop lns s1 (paths @ ps) n"
  by (subst parseFile_loop.simps)
     (auto simp: file_step_def split: sum.splits prod.splits if_splits)

lemma file_step_gt: "file_step s lns i = (s1, ps, n) \<Longrightarrow> i < n"
  by (auto simp: file_step_def split: sum.splits prod.splits if_splits dest: parsePath_index_gt)

lemma file_step_inv:
  assumes "cache_inv s" and "file_step s lns i = (s1, ps, n)"
  shows "cache_inv s1 \<and> extends s s1 \<and> (\<forall>p \<in> set ps. path_inv s1 p)"
proof (cases "str_find (lns ! i) ''Path '' = Some 0")
  case False
  with assms show ?thesis by (auto simp: file_step_def extends_refl)
next
  case True
  show ?thesis
  proof (cases "parsePath s lns i")
    case (Inl e)
    with True assms show ?thesis by (auto simp: file_step_def extends_refl)
  next
    case (Inr r)
    obtain s' p n' where r: "r = (s', p, n')" by (cases r)
    with Inr True assms(2) have eq: "s1 = s'" "ps = [p]" by (auto simp: file_step_def)
    from parsePath_inv[OF assms(1) Inr[unfolded r]] eq show ?thesis by simp
  qed
qed

lemma parseFile_loop_inv:
  assumes "cache_inv s" and "\<forall>p \<in> set paths. path_inv s p"
    and "parseFile_loop lns s paths i = (s', paths')"
  shows "cache_inv s' \<and> extends s s' \<and> (\<forall>p \<in> set paths'. path_inv s' p)"
  using assms
proof (induction "length lns - i" arbitrary: i s paths rule: less_induct)
  case less
  show ?case
  proof (cases "i < length lns")
    case False
    from parseFile_loop_stop[OF this, of s paths] less.prems show ?thesis
      by (simp add: extends_refl)
  next
    case True
    obtain s1 ps n where fs: "file_step s lns i = (s1, ps, n)"
      by (cases "file_step s lns i")
    from file_step_inv[OF less.prems(1) fs]
    have inv: "cache_inv s1" "extends s s1" "\<forall>p \<in> set ps. path_inv s1 p" by simp_all
    from less.prems(2) inv(2) less.prems(1) have "\<forall>p \<in> set paths. path_inv s1 p"
      by (blast intro: path_inv_extends)
    with inv(3) have all: "\<forall>p \<in> set (paths @ ps). path_inv s1 p" by auto
    from parseFile_loop_step[OF True fs] less.prems(3)
    have run: "parseFile_loop lns s1 (paths @ ps) n = (s', paths')" by simp
    from file_step_gt[OF fs] True have "length lns - n < length lns - i" by simp
    from less.hyps[OF this inv(1) all run] inv(2) show ?thesis
      by (auto intro: extends_trans)
  qed
qed

lemma parseFile_inv:
  assumes "cache_inv s" and "parseFile s lns = (s', paths)"
  shows "cache_inv s' \<and> extends s s' \<and> (\<forall>p \<in> set paths. path_inv s' p)"
  using parseFile_loop_inv[of s "[]" lns 0 s' paths] assms by (simp add: parseFile_def)

subsection \<open>Scenario A\<close>

lemma scenarioA_header:
  "parsePathHeader ''Path P1 FF_Q PI 2.345'' = Inr (''P1'', ''PI'', ''FF_Q'', 2.345)"
  by (simp add: parsePathHeader_def headerPattern_def isspace_def isdigit_def stod_def out_of_double_range_def
      digits_val_def)

lemma scenarioA_parseFile:
  "parseFile new_parser scenarioA = (scenarioA_state, [scenarioA_path])"
  by (simp add: parseFile_def parseFile_loop.simps parsePath_loop.simps parsePath_def scenarioA_def
      scenarioA_header
      parsePathStage_def stagePattern_def isspace_def isdigit_def stod_def out_of_double_range_def
      digits_val_def resolveFrom_def resolveTo_def make_shared_node_def new_parser_def
      inferFromType_def inferToType_def scenarioA_state_def scenarioA_path_def
      scenarioA_edge0_def scenarioA_edge1_def eval_nat_numeral)

text \<open>
  C4. Every edge the parser produces has both endpoint pointers set and satisfies
  \<open>delay = netDelay + cellDelay\<close>, where the whole delay is \<open>netDelay\<close> and \<open>cellDelay\<close> is 0
  if the type of the source node is net, and the whole delay is \<open>cellDelay\<close> and \<open>netDelay\<close>
  is 0 otherwise. It holds for every edge of every path \<open>parseFile\<close> returns, in any
  session state the parser can be in.
\<close>

theorem parser_edges_split:
  assumes "cache_inv s" and "parseFile s lns = (s', paths)"
  shows "\<forall>p \<in> set paths. \<forall>eo \<in> set (edges p). \<exists>e. eo = Some e \<and> edge_split s' e"
  using parseFile_inv[OF assms] unfolding path_inv_def by blast

text \<open>Scenario A: the first edge leaves a primary input, the second a net.\<close>

theorem parser_edges_split_witness:
  "edge_split scenarioA_state scenarioA_edge0 \<and> edge_split scenarioA_state scenarioA_edge1 \<and>
   cellDelay scenarioA_edge0 = delay scenarioA_edge0 \<and> netDelay scenarioA_edge0 = 0 \<and>
   netDelay scenarioA_edge1 = delay scenarioA_edge1 \<and> cellDelay scenarioA_edge1 = 0"
proof -
  from parser_edges_split[OF cache_inv_new_parser scenarioA_parseFile]
  have "\<forall>eo \<in> set (edges scenarioA_path). \<exists>e. eo = Some e \<and> edge_split scenarioA_state e"
    by simp
  then have "edge_split scenarioA_state scenarioA_edge0 \<and> edge_split scenarioA_state scenarioA_edge1"
    by (simp add: scenarioA_path_def)
  then show ?thesis
    by (simp add: scenarioA_edge0_def scenarioA_edge1_def)
qed

text \<open>
  C8. Parsing the three lines of scenario A with a new parser yields exactly one path,
  with id P1, startpoint PI, endpoint FF\_Q and total delay 2.345, and two edges: the
  first from the node named PI to the node named NET1, the second to the node named INV1,
  whose type is inverter.
\<close>

theorem scenarioA_result:
  "\<exists>s p e0 e1.
     parseFile new_parser scenarioA = (s, [p]) \<and>
     path_id p = ''P1'' \<and> startpoint p = ''PI'' \<and> endpoint p = ''FF_Q'' \<and>
     totalDelay p = 2.345 \<and> edges p = [Some e0, Some e1] \<and>
     map_option (\<lambda>r. name (node_heap s r)) (from e0) = Some ''PI'' \<and>
     map_option (\<lambda>r. name (node_heap s r)) (to e0) = Some ''NET1'' \<and>
     map_option (\<lambda>r. name (node_heap s r)) (to e1) = Some ''INV1'' \<and>
     map_option (\<lambda>r. type (node_heap s r)) (to e1) = Some ''inverter''"
  by (intro exI[of _ scenarioA_state] exI[of _ scenarioA_path] exI[of _ scenarioA_edge0]
        exI[of _ scenarioA_edge1])
     (simp add: scenarioA_parseFile scenarioA_path_def scenarioA_edge0_def scenarioA_edge1_def
        scenarioA_state_def)

lemma path_nodes_cached:
  assumes "\<forall>p \<in> set paths. path_inv s p" and "r \<in> path_nodes paths"
  shows "nodeCache s (name (node_heap s r)) = Some r"
proof -
  from assms(2) obtain p e where pe: "p \<in> set paths" "Some e \<in> set (edges p)"
    "from e = Some r \<or> to e = Some r"
    by (auto simp: path_nodes_def)
  with assms(1) have "edge_cached s e" by (auto simp: path_inv_def)
  with pe(3) show ?thesis by (auto simp: edge_cached_def)
qed

text \<open>
  C9. Within one parse session, resolving a node name again returns the identical node.
  After \<open>parseFile\<close>, in any session state: every node pointer held by an edge of the
  result is the pointer the cache holds for that node's name, so two pointers to nodes of
  the same name are the same pointer; every name in the cache resolves, as a source and
  as a destination, to the cached pointer and leaves the state as it is; a name not in
  the cache gets a new node, which is cached under the name; and every entry and node
  that was there before is still there, unchanged.
\<close>

theorem node_identity:
  assumes "cache_inv s" and "parseFile s lns = (s', paths)"
  shows "(\<forall>r \<in> path_nodes paths. nodeCache s' (name (node_heap s' r)) = Some r) \<and>
         (\<forall>r1 \<in> path_nodes paths. \<forall>r2 \<in> path_nodes paths.
            name (node_heap s' r1) = name (node_heap s' r2) \<longrightarrow> r1 = r2) \<and>
         (\<forall>nm r. nodeCache s' nm = Some r \<longrightarrow>
            resolveFrom s' nm = (r, s') \<and> resolveTo s' nm = (r, s')) \<and>
         (\<forall>nm. nodeCache s' nm = None \<longrightarrow>
            fst (resolveFrom s' nm) = next_ref s' \<and>
            nodeCache (snd (resolveFrom s' nm)) nm = Some (next_ref s') \<and>
            fst (resolveTo s' nm) = next_ref s' \<and>
            nodeCache (snd (resolveTo s' nm)) nm = Some (next_ref s')) \<and>
         extends s s' \<and> cache_inv s'"
proof -
  from parseFile_inv[OF assms]
  have inv: "cache_inv s'" "extends s s'" "\<forall>p \<in> set paths. path_inv s' p" by simp_all
  have a: "\<forall>r \<in> path_nodes paths. nodeCache s' (name (node_heap s' r)) = Some r"
    using path_nodes_cached[OF inv(3)] by blast
  have b: "\<forall>r1 \<in> path_nodes paths. \<forall>r2 \<in> path_nodes paths.
            name (node_heap s' r1) = name (node_heap s' r2) \<longrightarrow> r1 = r2"
  proof (intro ballI impI)
    fix r1 r2 assume "r1 \<in> path_nodes paths" "r2 \<in> path_nodes paths"
      and eq: "name (node_heap s' r1) = name (node_heap s' r2)"
    with a have c1: "nodeCache s' (name (node_heap s' r1)) = Some r1"
      and c2: "nodeCache s' (name (node_heap s' r2)) = Some r2" by blast+
    from c1 have "nodeCache s' (name (node_heap s' r2)) = Some r1" unfolding eq .
    with c2 show "r1 = r2" by (metis option.inject)
  qed
  have c: "\<forall>nm r. nodeCache s' nm = Some r \<longrightarrow>
            resolveFrom s' nm = (r, s') \<and> resolveTo s' nm = (r, s')"
    by (simp add: resolveFrom_hit resolveTo_hit)
  have d: "\<forall>nm. nodeCache s' nm = None \<longrightarrow>
            fst (resolveFrom s' nm) = next_ref s' \<and>
            nodeCache (snd (resolveFrom s' nm)) nm = Some (next_ref s') \<and>
            fst (resolveTo s' nm) = next_ref s' \<and>
            nodeCache (snd (resolveTo s' nm)) nm = Some (next_ref s')"
    by (simp add: resolveFrom_miss resolveTo_miss)
  show ?thesis
    by (rule conjI[OF a conjI[OF b conjI[OF c conjI[OF d conjI[OF inv(2) inv(1)]]]]])
qed

text \<open>
  Scenario A: NET1 is the destination of the first edge and the source of the second,
  and both edges hold the pointer the cache has for NET1.
\<close>

theorem node_identity_witness:
  "to scenarioA_edge0 = from scenarioA_edge1 \<and>
   nodeCache scenarioA_state ''NET1'' = to scenarioA_edge0 \<and>
   resolveFrom scenarioA_state ''NET1'' = (1, scenarioA_state) \<and>
   resolveTo scenarioA_state ''NET1'' = (1, scenarioA_state) \<and>
   extends new_parser scenarioA_state"
proof -
  note t = node_identity[OF cache_inv_new_parser scenarioA_parseFile]
  have c: "nodeCache scenarioA_state ''NET1'' = Some 1"
    by (simp add: scenarioA_state_def)
  from t c have "resolveFrom scenarioA_state ''NET1'' = (1, scenarioA_state)"
    "resolveTo scenarioA_state ''NET1'' = (1, scenarioA_state)" by blast+
  moreover from t have "extends new_parser scenarioA_state" by blast
  ultimately show ?thesis
    using c by (simp add: scenarioA_edge0_def scenarioA_edge1_def)
qed

subsection \<open>The block of a path\<close>

lemma block_end_terminator: "block_end l = block_terminator l"
  by (simp add: block_end_def block_terminator_def str_find_Some0 str_find_contains del: not_None_eq)

lemma stage_step_run:
  "stage_step s p l =
     (case run_stage_lines s (spec_stage_lines (path_id p) [l]) of
        (s', es) \<Rightarrow> (s', p\<lparr>edges := edges p @ es\<rparr>))"
  by (cases "parsePathStage s l")
     (auto simp: stage_step_def spec_stage_lines_def str_find_contains
           simp del: not_None_eq split: sum.splits option.splits)

lemma run_stage_lines_append:
  "run_stage_lines s (xs @ ys) =
     (case run_stage_lines s xs of
        (s1, es1) \<Rightarrow> (case run_stage_lines s1 ys of (s2, es2) \<Rightarrow> (s2, es1 @ es2)))"
  by (induction xs arbitrary: s) (auto split: prod.splits)

lemma spec_stage_lines_Cons:
  "spec_stage_lines pid (l # ls) = spec_stage_lines pid [l] @ spec_stage_lines pid ls"
  by (simp add: spec_stage_lines_def)

lemma parsePath_loop_block:
  "parsePath_loop lns s p i =
     (case run_stage_lines s
             (spec_stage_lines (path_id p) (takeWhile (\<lambda>l. \<not> block_terminator l) (drop i lns))) of
        (s', es) \<Rightarrow>
          (s', p\<lparr>edges := edges p @ es\<rparr>,
           i + length (takeWhile (\<lambda>l. \<not> block_terminator l) (drop i lns))))"
proof (induction "length lns - i" arbitrary: i s p)
  case 0
  then have "drop i lns = []" by simp
  moreover from 0 have "\<not> (i < length lns \<and> \<not> block_end (lns ! i))" by simp
  ultimately show ?case
    by (simp add: parsePath_loop_stop spec_stage_lines_def)
next
  case (Suc k)
  then have lt: "i < length lns" by simp
  then have dr: "drop i lns = lns ! i # drop (i + 1) lns" by (simp add: Cons_nth_drop_Suc)
  show ?case
  proof (cases "block_end (lns ! i)")
    case True
    then have "parsePath_loop lns s p i = (s, p, i)" by (simp add: parsePath_loop_stop)
    with True dr show ?thesis
      by (simp add: block_end_terminator spec_stage_lines_def)
  next
    case False
    obtain s1 es1 where r1: "run_stage_lines s (spec_stage_lines (path_id p) [lns ! i]) = (s1, es1)"
      by (cases "run_stage_lines s (spec_stage_lines (path_id p) [lns ! i])")
    then have st: "stage_step s p (lns ! i) = (s1, p\<lparr>edges := edges p @ es1\<rparr>)"
      by (simp add: stage_step_run)
    let ?rest = "takeWhile (\<lambda>l. \<not> block_terminator l) (drop (i + 1) lns)"
    obtain s2 es2 where r2: "run_stage_lines s1 (spec_stage_lines (path_id p) ?rest) = (s2, es2)"
      by (cases "run_stage_lines s1 (spec_stage_lines (path_id p) ?rest)")
    have k: "k = length lns - (i + 1)" using Suc.hyps(2) by simp
    have "parsePath_loop lns s p i = parsePath_loop lns s1 (p\<lparr>edges := edges p @ es1\<rparr>) (i + 1)"
      using lt False st by (rule parsePath_loop_step)
    also have "\<dots> = (s2, p\<lparr>edges := (edges p @ es1) @ es2\<rparr>, i + 1 + length ?rest)"
      using Suc.hyps(1)[OF k, of s1 "p\<lparr>edges := edges p @ es1\<rparr>"] r2 by simp
    finally have lhs: "parsePath_loop lns s p i =
        (s2, p\<lparr>edges := edges p @ es1 @ es2\<rparr>, i + 1 + length ?rest)" by simp
    have tw: "takeWhile (\<lambda>l. \<not> block_terminator l) (drop i lns) = lns ! i # ?rest"
      using False dr by (simp add: block_end_terminator)
    have "run_stage_lines s (spec_stage_lines (path_id p) (lns ! i # ?rest)) = (s2, es1 @ es2)"
      using r1 r2
      by (subst spec_stage_lines_Cons) (simp add: run_stage_lines_append)
    with lhs tw show ?thesis by simp
  qed
qed

lemma takeWhile_stop:
  "length (takeWhile P xs) < length xs \<Longrightarrow> \<not> P (xs ! length (takeWhile P xs))"
  by (simp add: nth_length_takeWhile)

lemma parsePath_run:
  assumes "parsePathHeader (lns ! startLine) = Inr (pid, sp, ep, d)"
  shows "parsePath s lns startLine =
           (case run_stage_lines s (spec_stage_lines pid (spec_block lns startLine)) of
              (s', es) \<Rightarrow>
                Inr (s',
                     \<lparr>path_id = pid, startpoint = sp, endpoint = ep, totalDelay = d, edges = es\<rparr>,
                     startLine + 1 + length (spec_block lns startLine)))"
  using assms
  by (simp add: parsePath_def parsePath_loop_block spec_block_def split: prod.splits)

lemma spec_block_bounds:
  assumes "startLine < length lns" and "n = startLine + 1 + length (spec_block lns startLine)"
  shows "n \<le> length lns"
    and "n < length lns \<longrightarrow> block_terminator (lns ! n)"
    and "\<forall>j. startLine < j \<and> j < n \<longrightarrow> \<not> block_terminator (lns ! j)"
proof -
  let ?P = "\<lambda>l. \<not> block_terminator l"
  let ?d = "drop (startLine + 1) lns"
  let ?blk = "spec_block lns startLine"
  have blk: "?blk = takeWhile ?P ?d" by (simp add: spec_block_def)
  have "length ?blk \<le> length ?d" unfolding blk by (rule length_takeWhile_le)
  then show 2: "n \<le> length lns" using assms by simp
  show "n < length lns \<longrightarrow> block_terminator (lns ! n)"
  proof
    assume lt: "n < length lns"
    then have "length (takeWhile ?P ?d) < length ?d" using assms(2) by (simp add: blk)
    from takeWhile_stop[OF this] have "block_terminator (?d ! length ?blk)" by (simp add: blk)
    moreover have "?d ! length ?blk = lns ! n"
      using lt assms(2) by (simp add: add.commute add.left_commute)
    ultimately show "block_terminator (lns ! n)" by simp
  qed
  show "\<forall>j. startLine < j \<and> j < n \<longrightarrow> \<not> block_terminator (lns ! j)"
  proof (intro allI impI)
    fix j assume j: "startLine < j \<and> j < n"
    then have lt: "j - (startLine + 1) < length (takeWhile ?P ?d)"
      using assms(2) by (auto simp: blk)
    then have "takeWhile ?P ?d ! (j - (startLine + 1)) \<in> set (takeWhile ?P ?d)"
      by (rule nth_mem)
    then have "?P (takeWhile ?P ?d ! (j - (startLine + 1)))"
      by (rule set_takeWhileD[THEN conjunct2])
    moreover have "takeWhile ?P ?d ! (j - (startLine + 1)) = ?d ! (j - (startLine + 1))"
      using lt by (rule takeWhile_nth)
    moreover have "?d ! (j - (startLine + 1)) = lns ! j"
      using j 2 by simp
    ultimately show "\<not> block_terminator (lns ! j)" by simp
  qed
qed

text \<open>
  C7, as amended. For every line sequence and every header index whose line parses as
  a header: the stage scan covers the lines after the header up to the first line that
  is empty, begins with \<open>Path \<close> or contains \<open>End of\<close>; of these lines, each one that
  contains the path id followed by a dot is handed to \<open>parsePathStage\<close>, in order, and the
  edges so produced are the edges of the path; and the index returned is that of the line
  that ended the block, which is not consumed, or the number of lines when no line ended
  the block.
\<close>

theorem parsePath_block:
  assumes "startLine < length lns"
    and "parsePathHeader (lns ! startLine) = Inr (pid, sp, ep, d)"
  shows "\<exists>s' es n.
           parsePath s lns startLine =
             Inr (s', \<lparr>path_id = pid, startpoint = sp, endpoint = ep, totalDelay = d, edges = es\<rparr>, n) \<and>
           run_stage_lines s (spec_stage_lines pid (spec_block lns startLine)) = (s', es) \<and>
           n = startLine + 1 + length (spec_block lns startLine) \<and>
           n \<le> length lns \<and>
           (n < length lns \<longrightarrow> block_terminator (lns ! n)) \<and>
           (\<forall>j. startLine < j \<and> j < n \<longrightarrow> \<not> block_terminator (lns ! j))"
proof -
  let ?n = "startLine + 1 + length (spec_block lns startLine)"
  obtain s' es where r: "run_stage_lines s (spec_stage_lines pid (spec_block lns startLine)) = (s', es)"
    by (cases "run_stage_lines s (spec_stage_lines pid (spec_block lns startLine))")
  have 1: "parsePath s lns startLine =
      Inr (s', \<lparr>path_id = pid, startpoint = sp, endpoint = ep, totalDelay = d, edges = es\<rparr>, ?n)"
    using r by (simp add: parsePath_run[OF assms(2)])
  from 1 r spec_block_bounds[OF assms(1) refl] show ?thesis by blast
qed

lemma two_blocks_header:
  "parsePathHeader (two_blocks ! 0) = Inr (''P1'', ''PI'', ''FF_Q'', 2.345)"
  by (simp add: two_blocks_def scenarioA_header)

lemma two_blocks_block: "spec_block two_blocks 0 = [''P1.1 NET1 PI 0.123'']"
  by (simp add: spec_block_def two_blocks_def block_terminator_def sublist_Cons_right)

text \<open>
  The block of P1 in a report of two paths: one stage line, and the index returned is 2,
  where the header of P2 stands.
\<close>

theorem parsePath_block_witness:
  "\<exists>s' es.
     parsePath new_parser two_blocks 0 =
       Inr (s', \<lparr>path_id = ''P1'', startpoint = ''PI'', endpoint = ''FF_Q'', totalDelay = 2.345,
                  edges = es\<rparr>, 2) \<and>
     run_stage_lines new_parser [''P1.1 NET1 PI 0.123''] = (s', es) \<and>
     block_terminator (two_blocks ! 2)"
proof -
  have len: "0 < length two_blocks" "2 < length two_blocks" by (simp_all add: two_blocks_def)
  have st: "spec_stage_lines ''P1'' [''P1.1 NET1 PI 0.123''] = [''P1.1 NET1 PI 0.123'']"
    by (simp add: spec_stage_lines_def sublist_Cons_right)
  from parsePath_block[OF len(1) two_blocks_header, of new_parser]
  obtain s' es n where r:
    "parsePath new_parser two_blocks 0 =
       Inr (s', \<lparr>path_id = ''P1'', startpoint = ''PI'', endpoint = ''FF_Q'', totalDelay = 2.345,
                  edges = es\<rparr>, n)"
    "run_stage_lines new_parser (spec_stage_lines ''P1'' (spec_block two_blocks 0)) = (s', es)"
    "n = 0 + 1 + length (spec_block two_blocks 0)"
    "n < length two_blocks \<longrightarrow> block_terminator (two_blocks ! n)"
    by blast
  from r(3) have n: "n = 2" by (simp add: two_blocks_block)
  from r(1,2,4) len(2) show ?thesis
    unfolding n two_blocks_block st by blast
qed

text \<open>
  C7 as stated has the index after the last line examined returned, also when that line
  ended the block. In the report of two paths the line that ends the block of P1 is the
  header of P2, at index 2: \<open>parsePath\<close> returns 2, so that the header is read next, where
  the claim gives 3.
\<close>

theorem parsePath_block_counterexample:
  "(case parsePath new_parser two_blocks 0 of Inr (s, p, n) \<Rightarrow> Some n | Inl e \<Rightarrow> None) = Some 2 \<and>
   claimed_next_index two_blocks 0 = 3"
proof -
  have len: "0 < length two_blocks" by (simp add: two_blocks_def)
  have "(case parsePath new_parser two_blocks 0 of Inr (s, p, n) \<Rightarrow> Some n | Inl e \<Rightarrow> None) =
        Some (0 + 1 + length (spec_block two_blocks 0))"
    by (simp add: parsePath_def two_blocks_header spec_block_def parsePath_loop_block
        split: prod.splits)
  then show ?thesis
    by (simp add: two_blocks_block claimed_next_index_def) (simp add: two_blocks_def)
qed

subsection \<open>The paths of a report\<close>

lemma map_filter_Cons_nth:
  "i < length xs \<Longrightarrow>
   List.map_filter f (drop i xs) =
     (case f (xs ! i) of None \<Rightarrow> [] | Some y \<Rightarrow> [y]) @ List.map_filter f (drop (Suc i) xs)"
  by (simp add: Cons_nth_drop_Suc[symmetric] List.map_filter_simps split: option.splits)

lemma map_filter_skip:
  "a \<le> b \<Longrightarrow> b \<le> length xs \<Longrightarrow> \<forall>j. a \<le> j \<and> j < b \<longrightarrow> f (xs ! j) = None \<Longrightarrow>
   List.map_filter f (drop a xs) = List.map_filter f (drop b xs)"
proof (induction "b - a" arbitrary: a)
  case 0
  then show ?case by simp
next
  case (Suc k)
  then have "a < length xs" "f (xs ! a) = None" by auto
  then have "List.map_filter f (drop a xs) = List.map_filter f (drop (Suc a) xs)"
    by (simp add: map_filter_Cons_nth)
  moreover have "List.map_filter f (drop (Suc a) xs) = List.map_filter f (drop b xs)"
    using Suc.hyps(2) Suc.prems by (intro Suc.hyps(1)) auto
  ultimately show ?case by simp
qed

lemma file_step_headers:
  assumes "i < length lns" and "file_step s lns i = (s1, ps, n)"
  shows "n \<le> length lns \<and>
         map path_header ps @ List.map_filter header_of_line (drop n lns) =
           List.map_filter header_of_line (drop i lns)"
proof (cases "header_of_line (lns ! i)")
  case None
  then have "\<not> (str_find (lns ! i) ''Path '' = Some 0 \<and> (\<exists>r. parsePath s lns i = Inr r))"
    by (auto simp: header_of_line_def str_find_Some0 parsePath_def split: sum.splits if_splits)
  with assms(2) have "ps = []" "n = i + 1"
    by (auto simp: file_step_def split: sum.splits if_splits)
  with assms(1) None show ?thesis by (simp add: map_filter_Cons_nth)
next
  case (Some h)
  then have pre: "str_find (lns ! i) ''Path '' = Some 0" and ph: "parsePathHeader (lns ! i) = Inr h"
    by (auto simp: header_of_line_def str_find_Some0 split: sum.splits if_splits)
  obtain pid sp ep d where h: "h = (pid, sp, ep, d)" by (cases h)
  obtain s' es where r: "run_stage_lines s (spec_stage_lines pid (spec_block lns i)) = (s', es)"
    by (cases "run_stage_lines s (spec_stage_lines pid (spec_block lns i))")
  define m where "m = i + 1 + length (spec_block lns i)"
  have b: "parsePath s lns i =
       Inr (s', \<lparr>path_id = pid, startpoint = sp, endpoint = ep, totalDelay = d, edges = es\<rparr>, m)"
    "m = i + 1 + length (spec_block lns i)" "m \<le> length lns"
    "\<forall>j. i < j \<and> j < m \<longrightarrow> \<not> block_terminator (lns ! j)"
    using r spec_block_bounds[OF assms(1) m_def]
    by (simp_all add: parsePath_run[OF ph[unfolded h]] m_def)
  from assms(2) pre b(1) have eq: "s1 = s'" "n = m"
    "ps = [\<lparr>path_id = pid, startpoint = sp, endpoint = ep, totalDelay = d, edges = es\<rparr>]"
    by (simp_all add: file_step_def)
  have "\<forall>j. Suc i \<le> j \<and> j < m \<longrightarrow> header_of_line (lns ! j) = None"
    using b(4) by (auto simp: header_of_line_def block_terminator_def)
  with b(2,3) have "List.map_filter header_of_line (drop (Suc i) lns) =
      List.map_filter header_of_line (drop m lns)"
    by (intro map_filter_skip) auto
  with Some h eq assms(1) b(3) show ?thesis
    by (simp add: map_filter_Cons_nth path_header_def)
qed

lemma parseFile_loop_headers:
  "map path_header (snd (parseFile_loop lns s paths i)) =
     map path_header paths @ List.map_filter header_of_line (drop i lns)"
proof (induction "length lns - i" arbitrary: i s paths rule: less_induct)
  case less
  show ?case
  proof (cases "i < length lns")
    case False
    then show ?thesis by (simp add: parseFile_loop_stop List.map_filter_simps)
  next
    case True
    obtain s1 ps n where fs: "file_step s lns i = (s1, ps, n)"
      by (cases "file_step s lns i")
    from file_step_gt[OF fs] True have "length lns - n < length lns - i" by simp
    from less.hyps[OF this, of s1 "paths @ ps"] parseFile_loop_step[OF True fs, of paths]
      file_step_headers[OF True fs]
    show ?thesis by simp
  qed
qed

subsection \<open>The header format\<close>

lemma rmatch_Plus_greedy:
  assumes "xs \<noteq> []" and "\<forall>c \<in> set xs. accepts a c"
    and "rest = [] \<or> \<not> accepts a (hd rest)" and "rmatch r rest = Some ms"
  shows "rmatch (Plus a # r) (xs @ rest) = Some (xs # ms)"
  using assms(1,2)
proof (induction xs)
  case Nil
  then show ?case by simp
next
  case (Cons c xs)
  show ?case
  proof (cases "xs = []")
    case True
    from assms(3) have "rmatch (Plus a # r) rest = None" by (cases rest) auto
    with True Cons.prems assms(4) show ?thesis by simp
  next
    case False
    with Cons have "rmatch (Plus a # r) (xs @ rest) = Some (xs # ms)" by simp
    with Cons.prems show ?thesis by simp
  qed
qed

lemma space_not_number: "isspace c \<Longrightarrow> \<not> isdigit c \<and> c \<noteq> CHR ''.''"
  by (auto simp: isspace_def isdigit_def)

lemma regex_search_hit: "rmatch p s = Some ms \<Longrightarrow> regex_search p s = Some ms"
  by (cases s) simp_all

lemma parsePathHeader_match:
  assumes "regex_search headerPattern line = Some [p0, p1, p2, p3, w0, m1, w1, m2, w2, m3, w3, m4]"
  shows "parsePathHeader line = (case stod m4 of Inl e \<Rightarrow> Inl e | Inr d \<Rightarrow> Inr (m1, m3, m2, d))"
  unfolding parsePathHeader_def assms by (simp only: option.case list.case)

lemma stod_decimal:
  assumes "ip \<noteq> []" and "\<forall>c \<in> set ip. isdigit c" and "\<forall>c \<in> set fp. isdigit c"
    and "dot = [] \<and> fp = [] \<or> dot = ''.''"
    and "\<not> out_of_double_range (real (digits_val ip) + real (digits_val fp) / 10 ^ length fp)"
  shows "stod (ip @ dot @ fp) = Inr (real (digits_val ip) + real (digits_val fp) / 10 ^ length fp)"
proof -
  have nd: "\<not> isdigit CHR ''.''" by (simp add: isdigit_def)
  from assms(4) show ?thesis
  proof
    assume "dot = [] \<and> fp = []"
    with assms(1,2,5) show ?thesis
      by (simp add: stod_def Let_def takeWhile_eq_all_conv[THEN iffD2] dropWhile_eq_Nil_conv[THEN iffD2])
  next
    assume d: "dot = ''.''"
    have tw: "takeWhile isdigit (ip @ CHR ''.'' # fp) = ip"
      using assms(2) nd by (simp add: takeWhile_append2)
    have dw: "dropWhile isdigit (ip @ CHR ''.'' # fp) = CHR ''.'' # fp"
      using assms(2) nd by (simp add: dropWhile_append2)
    have tf: "takeWhile isdigit fp = fp" using assms(3) by (simp add: takeWhile_eq_all_conv)
    from assms(1,5) show ?thesis
      by (simp add: stod_def Let_def d tw dw tf)
  qed
qed

lemma stod_out_of_range:
  assumes "ip \<noteq> []" and "\<forall>c \<in> set ip. isdigit c" and "\<forall>c \<in> set fp. isdigit c"
    and "dot = [] \<and> fp = [] \<or> dot = ''.''"
    and "out_of_double_range (real (digits_val ip) + real (digits_val fp) / 10 ^ length fp)"
  shows "stod (ip @ dot @ fp) = Inl (out_of_range ''stod'')"
proof -
  have nd: "\<not> isdigit CHR ''.''" by (simp add: isdigit_def)
  from assms(4) show ?thesis
  proof
    assume "dot = [] \<and> fp = []"
    with assms(1,2,5) show ?thesis
      by (simp add: stod_def Let_def takeWhile_eq_all_conv[THEN iffD2] dropWhile_eq_Nil_conv[THEN iffD2])
  next
    assume d: "dot = ''.''"
    have tw: "takeWhile isdigit (ip @ CHR ''.'' # fp) = ip"
      using assms(2) nd by (simp add: takeWhile_append2)
    have dw: "dropWhile isdigit (ip @ CHR ''.'' # fp) = CHR ''.'' # fp"
      using assms(2) nd by (simp add: dropWhile_append2)
    have tf: "takeWhile isdigit fp = fp" using assms(3) by (simp add: takeWhile_eq_all_conv)
    from assms(1,5) show ?thesis
      by (simp add: stod_def Let_def d tw dw tf)
  qed
qed

lemma digits_val_zeros:
  "digits_val (ds @ replicate n CHR ''0'') = digits_val ds * 10 ^ n"
proof (induction n)
  case 0
  then show ?case by simp
next
  case (Suc n)
  have "replicate (Suc n) CHR ''0'' = replicate n CHR ''0'' @ ''0''"
    by (simp add: replicate_append_same)
  then have "digits_val (ds @ replicate (Suc n) CHR ''0'') =
      10 * digits_val (ds @ replicate n CHR ''0'')"
    by (simp add: digits_val_def)
  with Suc show ?case by simp
qed

text \<open>
  On a line made of \<open>Path\<close> and four tokens separated by whitespace, the last one a
  decimal, the greedy repetitions of the pattern match the tokens one by one and never
  have to backtrack.
\<close>

lemma header_format_match:
  assumes w: "w0 \<noteq> []" "\<forall>c \<in> set w0. isspace c" "w1 \<noteq> []" "\<forall>c \<in> set w1. isspace c"
      "w2 \<noteq> []" "\<forall>c \<in> set w2. isspace c" "w3 \<noteq> []" "\<forall>c \<in> set w3. isspace c"
    and t: "pid \<noteq> []" "\<forall>c \<in> set pid. \<not> isspace c" "ep \<noteq> []" "\<forall>c \<in> set ep. \<not> isspace c"
      "sp \<noteq> []" "\<forall>c \<in> set sp. \<not> isspace c"
    and n: "ip \<noteq> []" "\<forall>c \<in> set ip. isdigit c" "\<forall>c \<in> set fp. isdigit c"
      "dot = [] \<and> fp = [] \<or> dot = ''.''"
    and r: "rest = [] \<or> isspace (hd rest)"
  shows "parsePathHeader (''Path'' @ w0 @ pid @ w1 @ ep @ w2 @ sp @ w3 @ (ip @ dot @ fp) @ rest) =
           (case stod (ip @ dot @ fp) of Inl e \<Rightarrow> Inl e | Inr d \<Rightarrow> Inr (pid, sp, ep, d))"
proof -
  let ?num = "ip @ dot @ fp"
  have num: "?num \<noteq> []" "\<forall>c \<in> set ?num. accepts DigitOrDot c"
    using n by auto
  have hn: "\<not> isspace (hd (?num @ rest))"
    using n(1,2) by (cases ip) (auto dest: space_not_number)
  have 1: "rmatch [Plus DigitOrDot] (?num @ rest) = Some [?num]"
    using r num by (intro rmatch_Plus_greedy) (auto dest: space_not_number)
  have 2: "rmatch [Plus Space, Plus DigitOrDot] (w3 @ ?num @ rest) = Some [w3, ?num]"
    by (rule rmatch_Plus_greedy) (use w(7,8) hn 1 in auto)
  have 3: "rmatch [Plus NonSpace, Plus Space, Plus DigitOrDot] (sp @ w3 @ ?num @ rest) =
      Some [sp, w3, ?num]"
    by (rule rmatch_Plus_greedy) (use t(5,6) w(7,8) 2 in \<open>auto simp: hd_append\<close>)
  have 4: "rmatch [Plus Space, Plus NonSpace, Plus Space, Plus DigitOrDot]
      (w2 @ sp @ w3 @ ?num @ rest) = Some [w2, sp, w3, ?num]"
    by (rule rmatch_Plus_greedy) (use w(5,6) t(5,6) 3 in \<open>auto simp: hd_append\<close>)
  have 5: "rmatch [Plus NonSpace, Plus Space, Plus NonSpace, Plus Space, Plus DigitOrDot]
      (ep @ w2 @ sp @ w3 @ ?num @ rest) = Some [ep, w2, sp, w3, ?num]"
    by (rule rmatch_Plus_greedy) (use t(3,4) w(5,6) 4 in \<open>auto simp: hd_append\<close>)
  have 6: "rmatch [Plus Space, Plus NonSpace, Plus Space, Plus NonSpace, Plus Space, Plus DigitOrDot]
      (w1 @ ep @ w2 @ sp @ w3 @ ?num @ rest) = Some [w1, ep, w2, sp, w3, ?num]"
    by (rule rmatch_Plus_greedy) (use w(3,4) t(3,4) 5 in \<open>auto simp: hd_append\<close>)
  have 7: "rmatch [Plus NonSpace, Plus Space, Plus NonSpace, Plus Space, Plus NonSpace, Plus Space,
        Plus DigitOrDot]
      (pid @ w1 @ ep @ w2 @ sp @ w3 @ ?num @ rest) = Some [pid, w1, ep, w2, sp, w3, ?num]"
    by (rule rmatch_Plus_greedy) (use t(1,2) w(3,4) 6 in \<open>auto simp: hd_append\<close>)
  have 8: "rmatch [Plus Space, Plus NonSpace, Plus Space, Plus NonSpace, Plus Space, Plus NonSpace,
        Plus Space, Plus DigitOrDot]
      (w0 @ pid @ w1 @ ep @ w2 @ sp @ w3 @ ?num @ rest) = Some [w0, pid, w1, ep, w2, sp, w3, ?num]"
    by (rule rmatch_Plus_greedy) (use w(1,2) t(1,2) 7 in \<open>auto simp: hd_append\<close>)
  have "rmatch headerPattern (''Path'' @ w0 @ pid @ w1 @ ep @ w2 @ sp @ w3 @ ?num @ rest) =
      Some [''P'', ''a'', ''t'', ''h'', w0, pid, w1, ep, w2, sp, w3, ?num]"
    using 8 by (simp add: headerPattern_def)
  from parsePathHeader_match[OF regex_search_hit[OF this]]
  show ?thesis by (simp split: sum.splits)
qed

text \<open>
  So every line of the header format is accepted, and a line that has this format but for
  a delay outside the range of \<open>double\<close> is rejected with \<open>std::out_of_range\<close>.
\<close>

lemma header_format_accepted:
  assumes w: "w0 \<noteq> []" "\<forall>c \<in> set w0. isspace c" "w1 \<noteq> []" "\<forall>c \<in> set w1. isspace c"
      "w2 \<noteq> []" "\<forall>c \<in> set w2. isspace c" "w3 \<noteq> []" "\<forall>c \<in> set w3. isspace c"
    and t: "pid \<noteq> []" "\<forall>c \<in> set pid. \<not> isspace c" "ep \<noteq> []" "\<forall>c \<in> set ep. \<not> isspace c"
      "sp \<noteq> []" "\<forall>c \<in> set sp. \<not> isspace c"
    and n: "ip \<noteq> []" "\<forall>c \<in> set ip. isdigit c" "\<forall>c \<in> set fp. isdigit c"
      "dot = [] \<and> fp = [] \<or> dot = ''.''"
    and v: "\<not> out_of_double_range (real (digits_val ip) + real (digits_val fp) / 10 ^ length fp)"
    and r: "rest = [] \<or> isspace (hd rest)"
  shows "parsePathHeader (''Path'' @ w0 @ pid @ w1 @ ep @ w2 @ sp @ w3 @ (ip @ dot @ fp) @ rest) =
           Inr (pid, sp, ep, real (digits_val ip) + real (digits_val fp) / 10 ^ length fp)"
  unfolding header_format_match[OF w t n r] stod_decimal[OF n v] by simp

lemma header_out_of_range:
  assumes w: "w0 \<noteq> []" "\<forall>c \<in> set w0. isspace c" "w1 \<noteq> []" "\<forall>c \<in> set w1. isspace c"
      "w2 \<noteq> []" "\<forall>c \<in> set w2. isspace c" "w3 \<noteq> []" "\<forall>c \<in> set w3. isspace c"
    and t: "pid \<noteq> []" "\<forall>c \<in> set pid. \<not> isspace c" "ep \<noteq> []" "\<forall>c \<in> set ep. \<not> isspace c"
      "sp \<noteq> []" "\<forall>c \<in> set sp. \<not> isspace c"
    and n: "ip \<noteq> []" "\<forall>c \<in> set ip. isdigit c" "\<forall>c \<in> set fp. isdigit c"
      "dot = [] \<and> fp = [] \<or> dot = ''.''"
    and v: "out_of_double_range (real (digits_val ip) + real (digits_val fp) / 10 ^ length fp)"
    and r: "rest = [] \<or> isspace (hd rest)"
  shows "parsePathHeader (''Path'' @ w0 @ pid @ w1 @ ep @ w2 @ sp @ w3 @ (ip @ dot @ fp) @ rest) =
           Inl (out_of_range ''stod'')"
  unfolding header_format_match[OF w t n r] stod_out_of_range[OF n v] by simp

lemma header_format_parses:
  assumes "header_format l h"
  shows "parsePathHeader l = Inr h"
proof -
  from assms obtain w0 pid w1 ep w2 sp w3 ip dot fp rest where
    l: "l = ''Path'' @ w0 @ pid @ w1 @ ep @ w2 @ sp @ w3 @ (ip @ dot @ fp) @ rest"
    and h: "h = (pid, sp, ep, real (digits_val ip) + real (digits_val fp) / 10 ^ length fp)"
    and w: "w0 \<noteq> []" "\<forall>c \<in> set w0. isspace c" "w1 \<noteq> []" "\<forall>c \<in> set w1. isspace c"
      "w2 \<noteq> []" "\<forall>c \<in> set w2. isspace c" "w3 \<noteq> []" "\<forall>c \<in> set w3. isspace c"
    and t: "pid \<noteq> []" "\<forall>c \<in> set pid. \<not> isspace c" "ep \<noteq> []" "\<forall>c \<in> set ep. \<not> isspace c"
      "sp \<noteq> []" "\<forall>c \<in> set sp. \<not> isspace c"
    and n: "ip \<noteq> []" "\<forall>c \<in> set ip. isdigit c" "\<forall>c \<in> set fp. isdigit c"
      "dot = [] \<and> fp = [] \<or> dot = ''.''"
    and v: "\<not> out_of_double_range (real (digits_val ip) + real (digits_val fp) / 10 ^ length fp)"
    and r: "rest = [] \<or> isspace (hd rest)"
    unfolding header_format_def by blast
  show ?thesis
    unfolding l h by (rule header_format_accepted[OF w t n v r])
qed

text \<open>
  C5. For every report, from any parser state, \<open>parseFile\<close> returns exactly one path for
  each well-formed header line, in the order of these lines, and none for any other
  line: a malformed header line adds no path and the scan goes on with the next line, and
  stage lines, well formed or not, never change the number of paths. So a report with
  \<open>N\<close> well-formed header lines yields \<open>N\<close> paths, and one with none the empty sequence.
  A header line is well formed when \<open>parsePathHeader\<close> accepts it, which it does for every
  line of the header format of the specification, the delay being a decimal in the range
  of \<open>double\<close>: when every line that begins with \<open>Path \<close> has this format, there are as many
  paths as such lines.
\<close>

theorem parseFile_paths:
  "map path_header (snd (parseFile s lns)) = List.map_filter header_of_line lns \<and>
   length (snd (parseFile s lns)) = length (filter (\<lambda>l. header_of_line l \<noteq> None) lns) \<and>
   ((\<forall>l \<in> set lns. prefix ''Path '' l \<longrightarrow> (\<exists>h. header_format l h)) \<longrightarrow>
    length (snd (parseFile s lns)) = length (filter (prefix ''Path '') lns))"
proof -
  have 1: "map path_header (snd (parseFile s lns)) = List.map_filter header_of_line lns"
    by (simp add: parseFile_def parseFile_loop_headers)
  have "length (snd (parseFile s lns)) = length (map path_header (snd (parseFile s lns)))"
    by simp
  also have "\<dots> = length (filter (\<lambda>l. header_of_line l \<noteq> None) lns)"
    unfolding 1 by (simp add: List.map_filter_def)
  finally have 2: "length (snd (parseFile s lns)) =
      length (filter (\<lambda>l. header_of_line l \<noteq> None) lns)" .
  have 3: "length (snd (parseFile s lns)) = length (filter (prefix ''Path '') lns)"
    if wf: "\<forall>l \<in> set lns. prefix ''Path '' l \<longrightarrow> (\<exists>h. header_format l h)"
  proof -
    have "(header_of_line l \<noteq> None) = prefix ''Path '' l" if "l \<in> set lns" for l
    proof (cases "prefix ''Path '' l")
      case False
      then show ?thesis by (simp add: header_of_line_def)
    next
      case True
      with wf that obtain h where "header_format l h" by blast
      from header_format_parses[OF this] True show ?thesis by (simp add: header_of_line_def)
    qed
    then have "filter (\<lambda>l. header_of_line l \<noteq> None) lns = filter (prefix ''Path '') lns"
      by (intro filter_cong) auto
    with 2 show ?thesis by simp
  qed
  from 1 2 3 show ?thesis by blast
qed

lemma test_report_headers:
  "List.map_filter header_of_line test_report =
     [(''P1'', ''PI'', ''FF_Q'', 2.345), (''P2'', ''PI2'', ''NAND1_Y'', 3.21)]"
  by (simp add: test_report_def List.map_filter_simps header_of_line_def
      parsePathHeader_def headerPattern_def isspace_def isdigit_def stod_def out_of_double_range_def digits_val_def)

lemma scenarioA_header_format:
  "header_format ''Path P1 FF_Q PI 2.345'' (''P1'', ''PI'', ''FF_Q'', 2.345)"
  unfolding header_format_def
  by (rule exI[of _ "'' ''"], rule exI[of _ "''P1''"], rule exI[of _ "'' ''"],
      rule exI[of _ "''FF_Q''"], rule exI[of _ "'' ''"], rule exI[of _ "''PI''"],
      rule exI[of _ "'' ''"], rule exI[of _ "''2''"], rule exI[of _ "''.''"],
      rule exI[of _ "''345''"], rule exI[of _ "[]"])
     (simp add: isspace_def isdigit_def digits_val_def out_of_double_range_def)

lemma overflow_header_rejected:
  "parsePathHeader overflow_header = Inl (out_of_range ''stod'')"
proof -
  have v: "out_of_double_range
      (real (digits_val (''1'' @ replicate 309 CHR ''0'')) + real (digits_val []) / 10 ^ length ([] :: string))"
    unfolding digits_val_zeros by (simp add: digits_val_def out_of_double_range_def)
  have "parsePathHeader (''Path'' @ '' '' @ ''P'' @ '' '' @ ''A'' @ '' '' @ ''B'' @ '' '' @
      ((''1'' @ replicate 309 CHR ''0'') @ [] @ []) @ []) = Inl (out_of_range ''stod'')"
    by (rule header_out_of_range[OF _ _ _ _ _ _ _ _ _ _ _ _ _ _ _ _ _ _ v])
       (simp_all add: isspace_def isdigit_def)
  then show ?thesis by (simp add: overflow_header_def)
qed

text \<open>
  A report with a malformed header line and two well-formed ones gives two paths, P1 and
  P2, in this order; a report with no well-formed header line gives none; a header line
  whose delay is too large for a \<open>double\<close> is malformed, and gives none; and scenario A,
  whose only header line has the format of the specification, gives one.
\<close>

theorem parseFile_paths_witness:
  "map path_header (snd (parseFile new_parser test_report)) =
     [(''P1'', ''PI'', ''FF_Q'', 2.345), (''P2'', ''PI2'', ''NAND1_Y'', 3.21)] \<and>
   map path_header (snd (parseFile new_parser [''no header here'', ''Path broken''])) = [] \<and>
   map path_header (snd (parseFile new_parser [overflow_header])) = [] \<and>
   length (snd (parseFile new_parser scenarioA)) = 1"
proof -
  have "List.map_filter header_of_line [overflow_header] = []"
    by (simp add: List.map_filter_simps header_of_line_def overflow_header_rejected)
  with parseFile_paths[of new_parser "[overflow_header]"]
  have o: "map path_header (snd (parseFile new_parser [overflow_header])) = []"
    by simp
  have "List.map_filter header_of_line [''no header here'', ''Path broken''] = []"
    by (simp add: List.map_filter_simps header_of_line_def
      parsePathHeader_def headerPattern_def isspace_def isdigit_def)
  with parseFile_paths[of new_parser test_report]
    parseFile_paths[of new_parser "[''no header here'', ''Path broken'']"]
  have a: "map path_header (snd (parseFile new_parser test_report)) =
     [(''P1'', ''PI'', ''FF_Q'', 2.345), (''P2'', ''PI2'', ''NAND1_Y'', 3.21)]"
    and b: "map path_header (snd (parseFile new_parser [''no header here'', ''Path broken''])) = []"
    by (simp_all add: test_report_headers)
  have "\<forall>l \<in> set scenarioA. prefix ''Path '' l \<longrightarrow> (\<exists>h. header_format l h)"
    using scenarioA_header_format by (simp add: scenarioA_def) blast
  with parseFile_paths[of new_parser scenarioA]
  have "length (snd (parseFile new_parser scenarioA)) = length (filter (prefix ''Path '') scenarioA)"
    by blast
  then have c: "length (snd (parseFile new_parser scenarioA)) = 1"
    by (simp add: scenarioA_def)
  from a b o c show ?thesis by blast
qed

subsection \<open>Node categories\<close>

lemma inferFromType_source: "inferFromType nm = source_category nm"
  by (simp add: inferFromType_def source_category_def str_find_contains del: not_None_eq)

lemma inferToType_destination: "inferToType nm = destination_category nm"
  by (simp add: inferToType_def destination_category_def str_find_contains del: not_None_eq)

lemma resolveFrom_other:
  "resolveFrom s nm = (r, s1) \<Longrightarrow> nm' \<noteq> nm \<Longrightarrow> nodeCache s1 nm' = nodeCache s nm'"
  by (auto simp: resolveFrom_def make_shared_node_def split: option.splits)

lemma category_stage:
  "parsePathStage new_parser ''P1.1 INV_FF NET7 0.5'' = (category_state, Inr (Some category_edge))"
  by (simp add: parsePathStage_def stagePattern_def isspace_def isdigit_def stod_def out_of_double_range_def
      digits_val_def resolveFrom_def resolveTo_def make_shared_node_def new_parser_def
      inferFromType_def inferToType_def category_state_def category_edge_def eval_nat_numeral)

text \<open>
  C6, as amended. The category of a node is fixed when its name is first resolved, by the
  role it has there. For a name first met as the source of an edge the checks are, in
  this order: NET gives net; FF or FLOP gives flop; PI gives primary\_input; otherwise
  unknown. For a name first met as a destination: NET gives net; INV inverter; BUF
  buffer; NAND nand; NOR nor; FF or FLOP flop; PO primary\_output; otherwise unknown. The
  first matching check wins, so a name containing both NET and FF is a net. A name that
  is already in the cache keeps the category it has. (A destination with the same name as
  the source of its line is resolved second and finds the source's node.)
\<close>

theorem node_categories:
  assumes "cache_inv s" and "parsePathStage s line = (s', Inr (Some e))"
  shows "\<exists>f t. from e = Some f \<and> to e = Some t \<and>
           type (node_heap s' f) =
             (case nodeCache s (name (node_heap s' f)) of
                Some r \<Rightarrow> type (node_heap s r)
              | None \<Rightarrow> source_category (name (node_heap s' f))) \<and>
           type (node_heap s' t) =
             (case nodeCache s (name (node_heap s' t)) of
                Some r \<Rightarrow> type (node_heap s r)
              | None \<Rightarrow>
                  if name (node_heap s' t) = name (node_heap s' f)
                  then source_category (name (node_heap s' t))
                  else destination_category (name (node_heap s' t)))"
proof (cases rule: parsePathStage_cases[of s line])
  case nomatch
  with assms(2) show ?thesis by simp
next
  case (throws err)
  with assms(2) show ?thesis by simp
next
  case (edge m0 m1 m2 w1 toName w2 fromName w3 m4 d fromNode s1 toNode s2)
  note rf = resolveFrom_props[OF assms(1) edge(3)]
  note rt = resolveTo_props[OF rf(1) edge(4)]
  from assms(2) edge(5) have s': "s' = s2" and f: "from e = Some fromNode" and t: "to e = Some toNode"
    by auto
  from rf(1,3) have lt: "fromNode < next_ref s1" by (auto simp: cache_inv_def)
  with rt(2) have same: "node_heap s2 fromNode = node_heap s1 fromNode"
    by (auto simp: extends_def)
  have nf: "name (node_heap s2 fromNode) = fromName" using same rf(4) by simp
  have nt: "name (node_heap s2 toNode) = toName" using rt(4) by simp
  have tf: "type (node_heap s2 fromNode) =
      (case nodeCache s fromName of
         Some r \<Rightarrow> type (node_heap s r) | None \<Rightarrow> source_category fromName)"
  proof (cases "nodeCache s fromName")
    case None
    with rf(5) same show ?thesis by (simp add: inferFromType_source)
  next
    case (Some r)
    with edge(3) have "fromNode = r" "s1 = s" by (simp_all add: resolveFrom_hit)
    with Some same show ?thesis by simp
  qed
  have tt: "type (node_heap s2 toNode) =
      (case nodeCache s toName of
         Some r \<Rightarrow> type (node_heap s r)
       | None \<Rightarrow> if toName = fromName then source_category toName
                 else destination_category toName)"
  proof (cases "nodeCache s toName")
    case (Some r)
    with rf(2) have c1: "nodeCache s1 toName = Some r" by (auto simp: extends_def)
    with edge(4) have eq: "toNode = r" "s2 = s1" by (simp_all add: resolveTo_hit)
    from Some assms(1) have "r < next_ref s" by (auto simp: cache_inv_def)
    with rf(2) have "node_heap s1 r = node_heap s r" by (auto simp: extends_def)
    with Some eq show ?thesis by simp
  next
    case None
    show ?thesis
    proof (cases "toName = fromName")
      case True
      with rf(3) edge(4) have eq: "toNode = fromNode" "s2 = s1" by (simp_all add: resolveTo_hit)
      with True None tf show ?thesis by simp
    next
      case False
      with resolveFrom_other[OF edge(3)] None have "nodeCache s1 toName = None" by simp
      with rt(5) None False show ?thesis by (simp add: inferToType_destination)
    qed
  qed
  have tf': "type (node_heap s2 fromNode) =
      (case nodeCache s (name (node_heap s2 fromNode)) of
         Some r \<Rightarrow> type (node_heap s r)
       | None \<Rightarrow> source_category (name (node_heap s2 fromNode)))"
    using tf unfolding nf .
  have tt': "type (node_heap s2 toNode) =
      (case nodeCache s (name (node_heap s2 toNode)) of
         Some r \<Rightarrow> type (node_heap s r)
       | None \<Rightarrow>
           if name (node_heap s2 toNode) = name (node_heap s2 fromNode)
           then source_category (name (node_heap s2 toNode))
           else destination_category (name (node_heap s2 toNode)))"
    using tt unfolding nf nt .
  show ?thesis
    unfolding s' using f t tf' tt' by blast
qed

text \<open>
  A line whose destination INV\_FF and source NET7 are both new: the destination is an
  inverter, the source a net.
\<close>

theorem node_categories_witness:
  "type (node_heap category_state 0) = source_category ''NET7'' \<and>
   type (node_heap category_state 1) = destination_category ''INV_FF'' \<and>
   destination_category ''INV_FF'' = ''inverter'' \<and> source_category ''NET7'' = ''net''"
proof -
  from node_categories[OF cache_inv_new_parser category_stage]
  obtain f t where ft: "from category_edge = Some f" "to category_edge = Some t"
    and tf: "type (node_heap category_state f) =
          (case nodeCache new_parser (name (node_heap category_state f)) of
             Some r \<Rightarrow> type (node_heap new_parser r)
           | None \<Rightarrow> source_category (name (node_heap category_state f)))"
    and tt: "type (node_heap category_state t) =
          (case nodeCache new_parser (name (node_heap category_state t)) of
             Some r \<Rightarrow> type (node_heap new_parser r)
           | None \<Rightarrow>
               if name (node_heap category_state t) = name (node_heap category_state f)
               then source_category (name (node_heap category_state t))
               else destination_category (name (node_heap category_state t)))"
    by blast
  from ft have "f = 0" "t = 1" by (simp_all add: category_edge_def)
  with tf tt
  have "type (node_heap category_state 0) = source_category ''NET7''"
    "type (node_heap category_state 1) = destination_category ''INV_FF''"
    by (simp_all add: new_parser_def category_state_def)
  then show ?thesis
    by (simp add: category_state_def)
qed

text \<open>
  C6 as stated checks FF before INV for every name. The destination INV\_FF contains
  both: the code, which checks INV first for a destination, makes it an inverter, where
  the listed order makes it a flop.
\<close>

theorem node_categories_counterexample:
  "parsePathStage new_parser ''P1.1 INV_FF NET7 0.5'' = (category_state, Inr (Some category_edge)) \<and>
   to category_edge = Some 1 \<and>
   name (node_heap category_state 1) = ''INV_FF'' \<and>
   type (node_heap category_state 1) = ''inverter'' \<and>
   spec_category Destination ''INV_FF'' = ''flop''"
  by (simp add: category_stage)
     (simp add: category_state_def category_edge_def spec_category_def sublist_Cons_right)

end
